theory Spec2Isabelle
  imports Complex_Main
begin

section \<open>Data model\<close>

text \<open>
  The maze is a Python list of rows, each row a list of booleans (\<open>True\<close> = free,
  \<open>False\<close> = wall), read as \<open>maze[y][x]\<close>. A cell is a pair \<open>(x, y)\<close> of Python
  integers. The parent dictionary maps a cell to the cell that discovered it, or to
  Python's \<open>None\<close> for the start cell: a key that is absent is \<open>None\<close> at the level of
  the map, a key bound to Python's \<open>None\<close> is \<open>Some None\<close>.
\<close>

type_synonym cell = "int \<times> int"
type_synonym grid = "bool list list"
type_synonym parent_map = "cell \<rightharpoonup> cell option"

datatype error = IndexError | KeyError

text \<open>Python's \<open>xs[i]\<close>: a negative index counts from the end, out of range raises.\<close>

definition py_index :: "'a list \<Rightarrow> int \<Rightarrow> error + 'a" where
  "py_index xs i =
     (if 0 \<le> i \<and> i < int (length xs) then Inr (xs ! nat i)
      else if i < 0 \<and> - int (length xs) \<le> i then Inr (xs ! nat (int (length xs) + i))
      else Inl IndexError)"

section \<open>The helper \<open>_neighbors\<close>\<close>

text \<open>
  The loop over the four offsets, in the source's order; \<open>neigh\<close> is the list built so
  far. The bounds test short-circuits before \<open>maze[ny][nx]\<close> is read.
\<close>

fun neighbors_loop :: "grid \<Rightarrow> cell \<Rightarrow> (int \<times> int) list \<Rightarrow> cell list \<Rightarrow> error + cell list" where
  "neighbors_loop maze node [] neigh = Inr neigh"
| "neighbors_loop maze node ((dx, dy) # ds) neigh =
     (let nx = fst node + dx; ny = snd node + dy; n = int (length maze) in
      if 0 \<le> nx \<and> nx < n \<and> 0 \<le> ny \<and> ny < n then
        (case py_index maze ny of
           Inl e \<Rightarrow> Inl e
         | Inr row \<Rightarrow>
             (case py_index row nx of
                Inl e \<Rightarrow> Inl e
              | Inr free \<Rightarrow>
                  neighbors_loop maze node ds (if free then neigh @ [(nx, ny)] else neigh)))
      else neighbors_loop maze node ds neigh)"

definition neighbors :: "cell \<Rightarrow> grid \<Rightarrow> error + cell list" where
  "neighbors node maze = neighbors_loop maze node [(1, 0), (- 1, 0), (0, 1), (0, - 1)] []"

section \<open>Breadth-first search: \<open>_bfs_layers\<close>\<close>

text \<open>
  The innermost loop \<open>for nb in self._neighbors(node, maze)\<close>: a neighbour that is not
  yet visited is marked visited, gets \<open>node\<close> as its parent and is appended to the queue.
\<close>

fun discover :: "cell \<Rightarrow> cell list \<Rightarrow> cell list \<times> cell set \<times> parent_map
    \<Rightarrow> cell list \<times> cell set \<times> parent_map" where
  "discover node [] (q, visited, parent) = (q, visited, parent)"
| "discover node (nb # nbs) (q, visited, parent) =
     (if nb \<notin> visited
      then discover node nbs (q @ [nb], insert nb visited, parent(nb \<mapsto> Some node))
      else discover node nbs (q, visited, parent))"

text \<open>
  The loop \<open>for _ in range(layer_size)\<close> either returns from the whole function (the
  goal was dequeued) or falls through to the end of the body of the \<open>while\<close> loop.
\<close>

datatype loop_exit =
    Returned "cell list list" parent_map
  | Fallthrough "cell list" "cell set" parent_map "cell list"

fun for_range :: "grid \<Rightarrow> cell \<Rightarrow> nat \<Rightarrow> cell list list
    \<Rightarrow> cell list \<times> cell set \<times> parent_map \<Rightarrow> cell list \<Rightarrow> error + loop_exit" where
  "for_range maze goal 0 layers (q, visited, parent) layer =
     Inr (Fallthrough q visited parent layer)"
| "for_range maze goal (Suc k) layers (q, visited, parent) layer =
     (case q of
        [] \<Rightarrow> Inl IndexError
      | node # q' \<Rightarrow>
          (if node = goal then Inr (Returned (layers @ [layer @ [node]]) parent)
           else
             (case neighbors node maze of
                Inl e \<Rightarrow> Inl e
              | Inr nbs \<Rightarrow>
                  for_range maze goal k layers
                    (discover node nbs (q', visited, parent)) (layer @ [node]))))"

text \<open>
  The loop \<open>while q\<close>. It is a partial function: \<open>None\<close> stands for a run that never
  returns, \<open>Some (Inl e)\<close> for a raised exception.
\<close>

partial_function (option) while_q :: "grid \<Rightarrow> cell \<Rightarrow> cell list \<Rightarrow> cell set \<Rightarrow> parent_map
    \<Rightarrow> cell list list \<Rightarrow> (error + cell list list \<times> parent_map) option" where
  "while_q maze goal q visited parent layers =
     (if q \<noteq> [] then
        (case for_range maze goal (length q) layers (q, visited, parent) [] of
           Inl e \<Rightarrow> Some (Inl e)
         | Inr (Returned layers' parent') \<Rightarrow> Some (Inr (layers', parent'))
         | Inr (Fallthrough q' visited' parent' layer) \<Rightarrow>
             while_q maze goal q' visited' parent' (layers @ [layer]))
      else Some (Inr (layers, parent)))"

declare while_q.simps [code]

definition bfs_layers :: "grid \<Rightarrow> cell \<Rightarrow> cell
    \<Rightarrow> (error + cell list list \<times> parent_map) option" where
  "bfs_layers maze start goal = while_q maze goal [start] {start} [start \<mapsto> None] []"

section \<open>Path reconstruction: \<open>_reconstruct_path\<close>\<close>

text \<open>\<open>parent.get(cur, None)\<close>: an absent key and a key bound to \<open>None\<close> both give \<open>None\<close>.\<close>

definition dict_get :: "parent_map \<Rightarrow> cell \<Rightarrow> cell option" where
  "dict_get parent cur = (case parent cur of None \<Rightarrow> None | Some v \<Rightarrow> v)"

partial_function (option) walk_back :: "parent_map \<Rightarrow> cell option \<Rightarrow> cell list
    \<Rightarrow> cell list option" where
  "walk_back parent cur path =
     (case cur of
        None \<Rightarrow> Some path
      | Some c \<Rightarrow> walk_back parent (dict_get parent c) (path @ [c]))"

declare walk_back.simps [code]

definition reconstruct_path :: "parent_map \<Rightarrow> cell \<Rightarrow> cell \<Rightarrow> cell list option" where
  "reconstruct_path parent start goal =
     (if parent goal = None then Some []
      else map_option rev (walk_back parent (Some goal) []))"

section \<open>Maze generation: \<open>_generate_maze\<close>\<close>

text \<open>
  Python's \<open>random\<close> module is a library, not code of this repository: its two
  operations used here are parameters. \<open>seed_fn\<close> is \<open>random.seed\<close>, giving the
  generator state for a seed; \<open>rnd\<close> is \<open>random.random\<close>, drawing a number and
  giving the next state. The hidden global state of the module is passed explicitly.
  The draws and \<open>wall_prob\<close> are floats compared by \<open>>\<close>; they are modelled as the
  real numbers they denote.
\<close>

fun row_comp :: "('r \<Rightarrow> real \<times> 'r) \<Rightarrow> real \<Rightarrow> nat \<Rightarrow> 'r \<Rightarrow> bool list \<times> 'r" where
  "row_comp rnd wall_prob 0 st = ([], st)"
| "row_comp rnd wall_prob (Suc k) st =
     (let (r, st1) = rnd st;
          (row, st2) = row_comp rnd wall_prob k st1
      in ((r > wall_prob) # row, st2))"

fun maze_comp :: "('r \<Rightarrow> real \<times> 'r) \<Rightarrow> real \<Rightarrow> nat \<Rightarrow> nat \<Rightarrow> 'r \<Rightarrow> grid \<times> 'r" where
  "maze_comp rnd wall_prob n 0 st = ([], st)"
| "maze_comp rnd wall_prob n (Suc k) st =
     (let (row, st1) = row_comp rnd wall_prob n st;
          (rows, st2) = maze_comp rnd wall_prob n k st1
      in (row # rows, st2))"

text \<open>\<open>range(n)\<close> is empty for \<open>n \<le> 0\<close>; \<open>seed=None\<close> leaves the generator as it is.\<close>

definition generate_maze :: "('sd \<Rightarrow> 'r) \<Rightarrow> ('r \<Rightarrow> real \<times> 'r) \<Rightarrow> 'r \<Rightarrow> int \<Rightarrow> real
    \<Rightarrow> 'sd option \<Rightarrow> grid \<times> 'r" where
  "generate_maze seed_fn rnd st n wall_prob seed =
     (let st' = (case seed of None \<Rightarrow> st | Some sd \<Rightarrow> seed_fn sd)
      in maze_comp rnd wall_prob (nat n) (nat n) st')"

section \<open>The scene: \<open>construct\<close> and the random walker\<close>

text \<open>
  The local variables of \<open>construct\<close> that the computation reads and writes; the
  updater closure \<open>rw_updater\<close> shares them. Drawing calls (squares, dots, trails,
  counters shown on screen) belong to the rendering library and are left out.
\<close>

record 'r scene =
  sc_maze :: grid
  sc_start :: cell
  sc_goal :: cell
  sc_layers :: "cell list list"
  sc_parent :: parent_map
  sc_path :: "cell list"
  random_running :: real
  rw_pos :: cell
  last_move_time :: real
  step_interval :: real
  rw_steps :: real
  rng :: 'r

text \<open>Python's \<open>xs[i] = v\<close>.\<close>

definition py_assign :: "'a list \<Rightarrow> int \<Rightarrow> 'a \<Rightarrow> error + 'a list" where
  "py_assign xs i v =
     (if 0 \<le> i \<and> i < int (length xs) then Inr (xs[nat i := v])
      else if i < 0 \<and> - int (length xs) \<le> i then Inr (xs[nat (int (length xs) + i) := v])
      else Inl IndexError)"

text \<open>\<open>maze[c[1]][c[0]] = True\<close>: the row object is fetched, then written in place.\<close>

definition force_passable :: "grid \<Rightarrow> cell \<Rightarrow> error + grid" where
  "force_passable maze c =
     (case py_index maze (snd c) of
        Inl e \<Rightarrow> Inl e
      | Inr row \<Rightarrow>
          (case py_assign row (fst c) True of
             Inl e \<Rightarrow> Inl e
           | Inr row' \<Rightarrow> py_assign maze (snd c) row'))"

text \<open>
  The start of \<open>construct\<close>: seed, generate, fix start and goal, force both free.
  \<open>grid_size\<close>, \<open>wall_prob\<close> and \<open>seed\<close> are the module constants
  \<open>GRID_SIZE\<close>, \<open>WALL_PROB\<close> and \<open>SEED\<close>.
\<close>

definition construct_maze :: "('sd \<Rightarrow> 'r) \<Rightarrow> ('r \<Rightarrow> real \<times> 'r) \<Rightarrow> int \<Rightarrow> real \<Rightarrow> 'sd
    \<Rightarrow> 'r scene \<Rightarrow> error + 'r scene" where
  "construct_maze seed_fn rnd grid_size wall_prob seed sc =
     (let st0 = seed_fn seed;
          (maze, st1) = generate_maze seed_fn rnd st0 grid_size wall_prob (Some seed);
          start = (0, 0);
          goal = (grid_size - 1, grid_size - 1)
      in case force_passable maze start of
           Inl e \<Rightarrow> Inl e
         | Inr maze1 \<Rightarrow>
             (case force_passable maze1 goal of
                Inl e \<Rightarrow> Inl e
              | Inr maze2 \<Rightarrow>
                  Inr (sc\<lparr>sc_maze := maze2, sc_start := start, sc_goal := goal, rng := st1\<rparr>)))"

text \<open>\<open>bfs_layers, parent = self._bfs_layers(maze, start, goal)\<close>\<close>

definition construct_bfs :: "'r scene \<Rightarrow> (error + 'r scene) option" where
  "construct_bfs sc =
     (case bfs_layers (sc_maze sc) (sc_start sc) (sc_goal sc) of
        None \<Rightarrow> None
      | Some (Inl e) \<Rightarrow> Some (Inl e)
      | Some (Inr (ls, p)) \<Rightarrow> Some (Inr (sc\<lparr>sc_layers := ls, sc_parent := p\<rparr>)))"

text \<open>\<open>path = self._reconstruct_path(parent, start, goal)\<close>\<close>

definition construct_path :: "'r scene \<Rightarrow> 'r scene option" where
  "construct_path sc =
     map_option (\<lambda>p. sc\<lparr>sc_path := p\<rparr>)
       (reconstruct_path (sc_parent sc) (sc_start sc) (sc_goal sc))"

text \<open>
  \<open>random.choice(seq)\<close> raises \<open>IndexError\<close> on an empty sequence and otherwise
  returns \<open>seq[randbelow(len(seq))]\<close>; \<open>randbelow\<close> is the library's draw of an index,
  a parameter here.
\<close>

definition choice :: "('r \<Rightarrow> nat \<Rightarrow> nat \<times> 'r) \<Rightarrow> 'r \<Rightarrow> 'a list \<Rightarrow> (error + 'a) \<times> 'r" where
  "choice randbelow st xs =
     (if xs = [] then (Inl IndexError, st)
      else (let (i, st') = randbelow st (length xs) in (py_index xs (int i), st')))"

text \<open>
  The keys of \<open>left_center_points\<close> are the pairs \<open>(i, j)\<close> with \<open>i\<close> and \<open>j\<close> in
  \<open>range(n)\<close>, one per square of the grid drawn from the maze.
\<close>

definition in_bounds :: "grid \<Rightarrow> cell \<Rightarrow> bool" where
  "in_bounds maze c =
     (0 \<le> fst c \<and> fst c < int (length maze) \<and> 0 \<le> snd c \<and> snd c < int (length maze))"

text \<open>
  The updater, called once per frame with the frame time \<open>dt\<close>. It does nothing while
  the walker is stopped or the step interval has not elapsed; otherwise it takes one
  step of the walk.
\<close>

definition rw_updater :: "('r \<Rightarrow> nat \<Rightarrow> nat \<times> 'r) \<Rightarrow> real \<Rightarrow> 'r scene \<Rightarrow> error + 'r scene" where
  "rw_updater randbelow dt sc =
     (if random_running sc < 0.5 then Inr sc
      else
        (let sc1 = sc\<lparr>last_move_time := last_move_time sc + dt\<rparr> in
         if last_move_time sc1 < step_interval sc1 then Inr sc1
         else
           (let sc2 = sc1\<lparr>last_move_time := 0\<rparr> in
            case neighbors (rw_pos sc2) (sc_maze sc2) of
              Inl e \<Rightarrow> Inl e
            | Inr nbs \<Rightarrow>
                if nbs = [] then Inr sc2
                else
                  (case choice randbelow (rng sc2) nbs of
                     (Inl e, st) \<Rightarrow> Inl e
                   | (Inr c, st) \<Rightarrow>
                       if in_bounds (sc_maze sc2) c
                       then Inr (sc2\<lparr>rw_pos := c, rng := st, rw_steps := rw_steps sc2 + 1\<rparr>)
                       else Inl KeyError))))"

section \<open>Vocabulary of the specification\<close>

text \<open>
  A grid is an \<open>n \<times> n\<close> matrix; a cell is passable when it lies in the grid and is
  free; a legal move goes to one of the four cells next to a cell.
\<close>

definition is_grid :: "grid \<Rightarrow> bool" where
  "is_grid maze = (\<forall>row \<in> set maze. length row = length maze)"

definition passable :: "grid \<Rightarrow> cell \<Rightarrow> bool" where
  "passable maze c = (in_bounds maze c \<and> maze ! nat (snd c) ! nat (fst c))"

definition adjacent :: "cell \<Rightarrow> cell \<Rightarrow> bool" where
  "adjacent c d =
     (d = (fst c + 1, snd c) \<or> d = (fst c - 1, snd c) \<or>
      d = (fst c, snd c + 1) \<or> d = (fst c, snd c - 1))"

text \<open>A path: a non-empty sequence of passable cells, each next to its predecessor.\<close>

fun legal_path :: "grid \<Rightarrow> cell list \<Rightarrow> bool" where
  "legal_path maze [] = False"
| "legal_path maze [c] = passable maze c"
| "legal_path maze (c # d # cs) = (passable maze c \<and> adjacent c d \<and> legal_path maze (d # cs))"

definition path_between :: "grid \<Rightarrow> cell \<Rightarrow> cell \<Rightarrow> cell list \<Rightarrow> bool" where
  "path_between maze s t p \<longleftrightarrow> legal_path maze p \<and> hd p = s \<and> last p = t"

definition reachable :: "grid \<Rightarrow> cell \<Rightarrow> cell \<Rightarrow> bool" where
  "reachable maze s t \<longleftrightarrow> (\<exists>p. path_between maze s t p)"


definition shortest_path_length :: "grid \<Rightarrow> cell \<Rightarrow> cell \<Rightarrow> nat \<Rightarrow> bool" where
  "shortest_path_length maze s t d \<longleftrightarrow>
     (\<exists>p. path_between maze s t p \<and> length p = Suc d) \<and>
     (\<forall>p. path_between maze s t p \<longrightarrow> Suc d \<le> length p)"

text \<open>
  \<open>p\<close> is the first cell of the sequence \<open>order\<close> from which a move to the passable cell
  \<open>c\<close> is legal.
\<close>

definition first_discoverer :: "grid \<Rightarrow> cell list \<Rightarrow> cell \<Rightarrow> cell \<Rightarrow> bool" where
  "first_discoverer maze order p c \<longleftrightarrow>
     adjacent p c \<and> passable maze c \<and>
     (\<exists>xs ys. order = xs @ p # ys \<and> (\<forall>u \<in> set xs. \<not> adjacent u c))"

text \<open>The library's contract for the index drawn by \<open>random.choice\<close>.\<close>

definition randbelow_ok :: "('r \<Rightarrow> nat \<Rightarrow> nat \<times> 'r) \<Rightarrow> bool" where
  "randbelow_ok randbelow \<longleftrightarrow> (\<forall>st n. 0 < n \<longrightarrow> fst (randbelow st n) < n)"

text \<open>Projections of a result of \<open>bfs_layers\<close>, for statements about concrete runs.\<close>

definition returned_layers :: "(error + cell list list \<times> parent_map) option
    \<Rightarrow> cell list list option" where
  "returned_layers r = (case r of Some (Inr (ls, p)) \<Rightarrow> Some ls | _ \<Rightarrow> None)"

definition parent_entry :: "(error + cell list list \<times> parent_map) option \<Rightarrow> cell
    \<Rightarrow> cell option option option" where
  "parent_entry r c = (case r of Some (Inr (ls, p)) \<Rightarrow> Some (p c) | _ \<Rightarrow> None)"

section \<open>Search invariant\<close>

text \<open>
  \<open>nbrs\<close> is the list \<open>_neighbors\<close> returns on a grid. \<open>reached maze s k\<close> are the
  cells at most \<open>k\<close> moves from \<open>s\<close>, \<open>ring maze s k\<close> the cells exactly \<open>k\<close> moves
  away.
\<close>

definition shift :: "cell \<Rightarrow> int \<times> int \<Rightarrow> cell" where
  "shift c d = (fst c + fst d, snd c + snd d)"

definition nbrs :: "grid \<Rightarrow> cell \<Rightarrow> cell list" where
  "nbrs maze c = filter (passable maze) (map (shift c) [(1, 0), (- 1, 0), (0, 1), (0, - 1)])"

fun reached :: "grid \<Rightarrow> cell \<Rightarrow> nat \<Rightarrow> cell set" where
  "reached maze s 0 = {s}"
| "reached maze s (Suc k) = reached maze s k \<union> (\<Union>c \<in> reached maze s k. set (nbrs maze c))"

definition ring :: "grid \<Rightarrow> cell \<Rightarrow> nat \<Rightarrow> cell set" where
  "ring maze s k = (case k of 0 \<Rightarrow> {s} | Suc j \<Rightarrow> reached maze s (Suc j) - reached maze s j)"

text \<open>
  The layers as the specification defines them: layer 0 is the start alone; the next
  layer lists, for the cells of a layer in order, their passable neighbours not yet
  visited, in the order right, left, down, up. \<open>seen\<close> are the cells visited so far.
\<close>

fun spec_next_layer :: "grid \<Rightarrow> cell set \<Rightarrow> cell list \<Rightarrow> cell list" where
  "spec_next_layer maze seen [] = []"
| "spec_next_layer maze seen (u # us) =
     (let new = filter (\<lambda>c. c \<notin> seen) (nbrs maze u)
      in new @ spec_next_layer maze (seen \<union> set new) us)"

fun spec_layer :: "grid \<Rightarrow> cell \<Rightarrow> nat \<Rightarrow> cell list" where
  "spec_layer maze s 0 = [s]"
| "spec_layer maze s (Suc k) = spec_next_layer maze (reached maze s k) (spec_layer maze s k)"

text \<open>
  The parent dictionary, \<open>dq\<close> being the cells dequeued and expanded so far, in order.
\<close>

definition parent_inv :: "grid \<Rightarrow> cell \<Rightarrow> cell list \<Rightarrow> parent_map \<Rightarrow> bool" where
  "parent_inv maze s dq par \<longleftrightarrow>
     par s = Some None \<and> (\<forall>c. par c = Some None \<longrightarrow> c = s) \<and>
     (\<forall>c p. par c = Some (Some p) \<longrightarrow>
        par p \<noteq> None \<and> c \<in> set (nbrs maze p) \<and>
        (\<exists>i. p \<in> ring maze s i \<and> c \<in> ring maze s (Suc i)) \<and>
        (\<exists>xs ys. dq = xs @ p # ys \<and> (\<forall>u \<in> set xs. c \<notin> set (nbrs maze u))))"

text \<open>
  The state inside the \<open>for\<close> loop of layer \<open>length layers\<close>, with \<open>m\<close> iterations
  still to run: \<open>layer\<close> and the first \<open>m\<close> cells of the queue make up the ring, the
  rest of the queue are the cells of the next ring found so far; as lists, \<open>layer\<close>
  followed by the first \<open>m\<close> cells of the queue is the layer of the specification, the
  rest of the queue is the part of the next layer that the cells of \<open>layer\<close> give, and
  the finished layers are those of the specification.
\<close>

definition bfs_inv :: "grid \<Rightarrow> cell \<Rightarrow> cell \<Rightarrow> cell list list \<Rightarrow> cell list \<Rightarrow> nat
    \<Rightarrow> cell list \<Rightarrow> cell set \<Rightarrow> parent_map \<Rightarrow> bool" where
  "bfs_inv maze s goal layers layer m q vis par \<longleftrightarrow>
     m \<le> length q \<and>
     set layer \<union> set (take m q) = ring maze s (length layers) \<and>
     set (drop m q) = (\<Union>u \<in> set layer. set (nbrs maze u)) - reached maze s (length layers) \<and>
     vis = reached maze s (length layers) \<union> set (drop m q) \<and>
     distinct (concat layers @ layer @ q) \<and>
     (\<forall>i < length layers. set (layers ! i) = ring maze s i) \<and>
     goal \<notin> set (concat layers) \<union> set layer \<and>
     dom par = vis \<and>
     parent_inv maze s (concat layers @ layer) par \<and>
     layer @ take m q = spec_layer maze s (length layers) \<and>
     drop m q = spec_next_layer maze (reached maze s (length layers)) layer \<and>
     (\<forall>i < length layers. layers ! i = spec_layer maze s i)"

definition bfs_found :: "grid \<Rightarrow> cell \<Rightarrow> cell \<Rightarrow> cell list list \<Rightarrow> parent_map \<Rightarrow> bool" where
  "bfs_found maze s goal ls par \<longleftrightarrow>
     (\<exists>layers layer m q vis.
        ls = layers @ [layer @ [goal]] \<and>
        bfs_inv maze s goal layers layer (Suc m) (goal # q) vis par)"

definition bfs_exhausted :: "grid \<Rightarrow> cell \<Rightarrow> cell \<Rightarrow> cell list list \<Rightarrow> parent_map \<Rightarrow> bool" where
  "bfs_exhausted maze s goal ls par \<longleftrightarrow> (\<exists>vis. bfs_inv maze s goal ls [] 0 [] vis par)"

section \<open>Lemmas\<close>

lemma neighbors_loop_grid:
  assumes "is_grid maze"
  shows "neighbors_loop maze node ds neigh
           = Inr (neigh @ filter (passable maze) (map (shift node) ds))"
proof (induction ds arbitrary: neigh)
  case Nil
  show ?case by simp
next
  case (Cons d ds)
  obtain dx dy where d: "d = (dx, dy)" by (cases d)
  let ?nx = "fst node + dx" and ?ny = "snd node + dy"
  show ?case
  proof (cases "in_bounds maze (?nx, ?ny)")
    case False
    then have "\<not> passable maze (shift node d)"
      by (simp add: passable_def shift_def d)
    moreover from False
    have "\<not> (0 \<le> ?nx \<and> ?nx < int (length maze) \<and> 0 \<le> ?ny \<and> ?ny < int (length maze))"
      by (simp add: in_bounds_def)
    ultimately show ?thesis
      by (simp add: d Cons.IH Let_def del: de_Morgan_conj)
  next
    case True
    then have row: "py_index maze ?ny = Inr (maze ! nat ?ny)"
      by (simp add: py_index_def in_bounds_def)
    from True have "nat ?ny < length maze"
      by (simp add: in_bounds_def nat_less_iff)
    then have "maze ! nat ?ny \<in> set maze"
      by (rule nth_mem)
    with assms have "length (maze ! nat ?ny) = length maze"
      by (simp add: is_grid_def)
    with True have cellv: "py_index (maze ! nat ?ny) ?nx = Inr (maze ! nat ?ny ! nat ?nx)"
      by (simp add: py_index_def in_bounds_def)
    from True have "passable maze (shift node d) = maze ! nat ?ny ! nat ?nx"
      by (simp add: passable_def shift_def d)
    moreover have "shift node d = (?nx, ?ny)"
      by (simp add: shift_def d)
    ultimately show ?thesis using True row cellv
      by (simp add: d Cons.IH in_bounds_def Let_def)
  qed
qed

lemma neighbors_grid: "is_grid maze \<Longrightarrow> neighbors node maze = Inr (nbrs maze node)"
  by (simp only: neighbors_def nbrs_def neighbors_loop_grid append_Nil)

lemma in_nbrs: "d \<in> set (nbrs maze c) \<longleftrightarrow> adjacent c d \<and> passable maze d"
  by (auto simp: nbrs_def adjacent_def shift_def)

lemma distinct_nbrs: "distinct (nbrs maze c)"
  by (simp add: nbrs_def shift_def distinct_map_filter)

lemma ring_0: "ring maze s 0 = {s}"
  by (simp add: ring_def)

lemma ring_Suc: "ring maze s (Suc k) = reached maze s (Suc k) - reached maze s k"
  by (simp add: ring_def)

lemma reached_mono: "i \<le> j \<Longrightarrow> reached maze s i \<subseteq> reached maze s j"
  by (induction j) (auto simp: le_Suc_eq)

lemma ring_sub_reached: "ring maze s k \<subseteq> reached maze s k"
  by (cases k) (auto simp: ring_def)

lemma reached_ring: "c \<in> reached maze s k \<Longrightarrow> \<exists>i\<le>k. c \<in> ring maze s i"
proof (induction k)
  case 0
  then show ?case by (simp add: ring_0)
next
  case (Suc k)
  show ?case
  proof (cases "c \<in> reached maze s k")
    case True
    with Suc.IH obtain i where "i \<le> k" "c \<in> ring maze s i" by blast
    then show ?thesis using le_SucI by blast
  next
    case False
    with Suc.prems have "c \<in> ring maze s (Suc k)" by (simp add: ring_Suc)
    then show ?thesis by blast
  qed
qed

lemma ring_disjoint:
  assumes "i < j" and "c \<in> ring maze s i"
  shows "c \<notin> ring maze s j"
proof -
  from assms(1) obtain j' where j: "j = Suc j'" by (cases j) auto
  from assms(2) have "c \<in> reached maze s i" using ring_sub_reached by blast
  moreover from assms(1) j have "i \<le> j'" by simp
  ultimately have "c \<in> reached maze s j'" using reached_mono by blast
  then show ?thesis by (simp add: j ring_Suc)
qed

lemma ring_unique: "c \<in> ring maze s i \<Longrightarrow> c \<in> ring maze s j \<Longrightarrow> i = j"
  using ring_disjoint [of i j c maze s] ring_disjoint [of j i c maze s]
  by (cases i j rule: linorder_cases) auto

lemma ring_step:
  "ring maze s (Suc k) = (\<Union>c \<in> ring maze s k. set (nbrs maze c)) - reached maze s k"
proof (rule set_eqI, rule iffI)
  fix d
  assume "d \<in> ring maze s (Suc k)"
  then have d: "d \<in> reached maze s (Suc k)" "d \<notin> reached maze s k"
    unfolding ring_Suc by blast+
  then obtain c where c: "c \<in> reached maze s k" "d \<in> set (nbrs maze c)" by auto
  have "c \<in> ring maze s k"
  proof (cases k)
    case 0
    with c show ?thesis by (simp add: ring_0)
  next
    case (Suc j)
    have "c \<notin> reached maze s j"
    proof
      assume "c \<in> reached maze s j"
      with c(2) have "d \<in> reached maze s (Suc j)" by auto
      with d(2) Suc show False by simp
    qed
    with c(1) Suc show ?thesis by (simp add: ring_Suc)
  qed
  with c(2) d(2) show "d \<in> (\<Union>c \<in> ring maze s k. set (nbrs maze c)) - reached maze s k"
    by blast
next
  fix d
  assume "d \<in> (\<Union>c \<in> ring maze s k. set (nbrs maze c)) - reached maze s k"
  then obtain c where c: "c \<in> ring maze s k" "d \<in> set (nbrs maze c)" "d \<notin> reached maze s k"
    by blast
  from c(1) have "c \<in> reached maze s k" using ring_sub_reached by blast
  with c(2,3) show "d \<in> ring maze s (Suc k)" by (auto simp: ring_Suc)
qed

lemma reached_Suc_ring: "reached maze s (Suc k) = reached maze s k \<union> ring maze s (Suc k)"
  by (auto simp: ring_Suc)

lemma ring_empty_stays: "ring maze s k = {} \<Longrightarrow> ring maze s (k + j) = {}"
  by (induction j) (simp_all add: ring_step)

lemma discover_distinct:
  "distinct nbs \<Longrightarrow>
   discover node nbs (q, vis, par) =
     (q @ filter (\<lambda>c. c \<notin> vis) nbs, vis \<union> set nbs,
      (\<lambda>c. if c \<in> set nbs \<and> c \<notin> vis then Some (Some node) else par c))"
proof (induction nbs arbitrary: q vis par)
  case Nil
  show ?case by simp
next
  case (Cons nb nbs)
  then have d: "distinct nbs" "nb \<notin> set nbs" by simp_all
  from d(2) have f: "filter (\<lambda>c. c \<notin> insert nb vis) nbs = filter (\<lambda>c. c \<notin> vis) nbs"
    by (intro filter_cong) auto
  show ?case
  proof (cases "nb \<in> vis")
    case True
    then show ?thesis using Cons.IH [OF d(1)] by (auto simp: fun_eq_iff)
  next
    case False
    then show ?thesis using Cons.IH [OF d(1)] f d(2) by (auto simp: fun_eq_iff)
  qed
qed

lemma spec_next_layer_set:
  "set (spec_next_layer maze seen us) = (\<Union>u \<in> set us. set (nbrs maze u)) - seen"
  by (induction us arbitrary: seen) (auto simp: Let_def)

lemma spec_next_layer_snoc:
  "spec_next_layer maze seen (us @ [u]) =
     spec_next_layer maze seen us
       @ filter (\<lambda>c. c \<notin> seen \<union> set (spec_next_layer maze seen us)) (nbrs maze u)"
proof (induction us arbitrary: seen)
  case Nil
  show ?case by (simp add: Let_def)
next
  case (Cons x xs)
  let ?new = "filter (\<lambda>c. c \<notin> seen) (nbrs maze x)"
  have "seen \<union> set ?new \<union> set (spec_next_layer maze (seen \<union> set ?new) xs)
      = seen \<union> set (?new @ spec_next_layer maze (seen \<union> set ?new) xs)"
    by auto
  then show ?case using Cons.IH [of "seen \<union> set ?new"] by (simp add: Let_def)
qed

lemma spec_layer_set: "set (spec_layer maze s k) = ring maze s k"
proof (induction k)
  case 0
  show ?case by (simp add: ring_0)
next
  case (Suc k)
  then show ?case by (simp add: spec_next_layer_set ring_step)
qed

lemma bfs_inv_init: "bfs_inv maze s goal [] [] (Suc 0) [s] {s} [s \<mapsto> None]"
  by (simp add: bfs_inv_def parent_inv_def ring_0)

lemma concat_layers_within:
  assumes "\<forall>i < length layers. set (layers ! i) = ring maze s i"
  shows "set (concat layers) \<subseteq> reached maze s (length layers)"
proof
  fix c
  assume "c \<in> set (concat layers)"
  then obtain l where "l \<in> set layers" "c \<in> set l" by auto
  then obtain i where i: "i < length layers" "c \<in> set (layers ! i)"
    by (auto simp: in_set_conv_nth)
  with assms have "c \<in> ring maze s i" by simp
  then have "c \<in> reached maze s i" using ring_sub_reached by blast
  with i(1) show "c \<in> reached maze s (length layers)"
    using reached_mono [of i "length layers" maze s] by auto
qed

lemma concat_layers_nbrs:
  assumes "\<forall>i < length layers. set (layers ! i) = ring maze s i"
    and "u \<in> set (concat layers)"
  shows "set (nbrs maze u) \<subseteq> reached maze s (length layers)"
proof -
  from assms(2) obtain l where "l \<in> set layers" "u \<in> set l" by auto
  then obtain i where i: "i < length layers" "u \<in> set (layers ! i)"
    by (auto simp: in_set_conv_nth)
  with assms(1) have "u \<in> ring maze s i" by simp
  then have "u \<in> reached maze s i" using ring_sub_reached by blast
  then have "set (nbrs maze u) \<subseteq> reached maze s (Suc i)" by auto
  moreover from i(1) have "reached maze s (Suc i) \<subseteq> reached maze s (length layers)"
    by (intro reached_mono) simp
  ultimately show ?thesis by blast
qed

lemma bfs_invD:
  assumes "bfs_inv maze s goal layers layer m q vis par"
  shows "m \<le> length q"
    and "set layer \<union> set (take m q) = ring maze s (length layers)"
    and "set (drop m q)
           = (\<Union>u \<in> set layer. set (nbrs maze u)) - reached maze s (length layers)"
    and "vis = reached maze s (length layers) \<union> set (drop m q)"
    and "distinct (concat layers @ layer @ q)"
    and "\<forall>i < length layers. set (layers ! i) = ring maze s i"
    and "goal \<notin> set (concat layers) \<union> set layer"
    and "dom par = vis"
    and "parent_inv maze s (concat layers @ layer) par"
    and "layer @ take m q = spec_layer maze s (length layers)"
    and "drop m q = spec_next_layer maze (reached maze s (length layers)) layer"
    and "\<forall>i < length layers. layers ! i = spec_layer maze s i"
  using assms unfolding bfs_inv_def by blast+

lemma parent_invD:
  assumes "parent_inv maze s dq par"
  shows "par s = Some None"
    and "par c = Some None \<Longrightarrow> c = s"
    and "par c = Some (Some p) \<Longrightarrow> par p \<noteq> None"
    and "par c = Some (Some p) \<Longrightarrow> c \<in> set (nbrs maze p)"
    and "par c = Some (Some p) \<Longrightarrow> \<exists>i. p \<in> ring maze s i \<and> c \<in> ring maze s (Suc i)"
    and "par c = Some (Some p) \<Longrightarrow>
           \<exists>xs ys. dq = xs @ p # ys \<and> (\<forall>u \<in> set xs. c \<notin> set (nbrs maze u))"
  using assms unfolding parent_inv_def by blast+

lemma bfs_inv_step:
  assumes inv: "bfs_inv maze s goal layers layer (Suc m) (node # q) vis par"
    and ng: "node \<noteq> goal"
  shows "bfs_inv maze s goal layers (layer @ [node]) m
           (q @ filter (\<lambda>c. c \<notin> vis) (nbrs maze node)) (vis \<union> set (nbrs maze node))
           (\<lambda>c. if c \<in> set (nbrs maze node) \<and> c \<notin> vis then Some (Some node) else par c)"
proof -
  let ?k = "length layers"
  let ?W = "reached maze s ?k"
  let ?new = "filter (\<lambda>c. c \<notin> vis) (nbrs maze node)"
  let ?par = "\<lambda>c. if c \<in> set (nbrs maze node) \<and> c \<notin> vis then Some (Some node) else par c"
  note D = bfs_invD [OF inv]
  have m: "m \<le> length q" using D(1) by simp
  have I2: "set layer \<union> insert node (set (take m q)) = ring maze s ?k" using D(2) by simp
  have I3: "set (drop m q) = (\<Union>u \<in> set layer. set (nbrs maze u)) - ?W" using D(3) by simp
  have I1: "vis = ?W \<union> set (drop m q)" using D(4) by simp
  note I4 = D(5) and I6 = D(6) and I7 = D(7) and I8 = D(8) and PI = D(9)
  have ringW: "ring maze s ?k \<subseteq> ?W" by (rule ring_sub_reached)
  have node_ring: "node \<in> ring maze s ?k" using I2 by blast
  have node_vis: "node \<in> vis" using node_ring ringW I1 by blast
  have s_vis: "s \<in> vis"
  proof -
    have "s \<in> reached maze s 0" by simp
    then have "s \<in> ?W" using reached_mono [of 0 ?k maze s] by blast
    then show ?thesis using I1 by blast
  qed
  have cl_vis: "set (concat layers) \<subseteq> vis"
    using concat_layers_within [OF I6] I1 by blast
  have layer_vis: "set layer \<subseteq> vis" using I2 ringW I1 by blast
  have q_vis: "set q \<subseteq> vis"
  proof -
    have "set q = set (take m q) \<union> set (drop m q)"
      by (metis append_take_drop_id set_append)
    then show ?thesis using I2 ringW I1 by blast
  qed
  have new_set: "set ?new = set (nbrs maze node) - vis" by auto
  have new_dist: "distinct ?new" by (simp add: distinct_nbrs)
  have nb_done: "set (nbrs maze u) \<subseteq> vis" if "u \<in> set (concat layers @ layer)" for u
  proof (cases "u \<in> set (concat layers)")
    case True
    then show ?thesis using concat_layers_nbrs [OF I6] I1 by blast
  next
    case False
    with that have "u \<in> set layer" by simp
    then show ?thesis using I3 I1 by blast
  qed
  have c1: "m \<le> length (q @ ?new)" using m by simp
  have c2: "set (layer @ [node]) \<union> set (take m (q @ ?new)) = ring maze s ?k"
    using m I2 by simp
  have c3: "set (drop m (q @ ?new))
              = (\<Union>u \<in> set (layer @ [node]). set (nbrs maze u)) - ?W"
    using m I3 I1 new_set by auto
  have c4: "vis \<union> set (nbrs maze node) = ?W \<union> set (drop m (q @ ?new))"
    using m I1 new_set by auto
  have c5: "distinct (concat layers @ (layer @ [node]) @ q @ ?new)"
    using I4 new_dist new_set cl_vis layer_vis q_vis node_vis by auto
  have c7: "goal \<notin> set (concat layers) \<union> set (layer @ [node])"
    using I7 ng by simp
  have c8: "dom ?par = vis \<union> set (nbrs maze node)"
    using I8 by (auto simp: dom_def split: if_splits)
  have c9: "parent_inv maze s (concat layers @ layer @ [node]) ?par"
    unfolding parent_inv_def
  proof (intro conjI allI impI)
    show "?par s = Some None" using parent_invD(1) [OF PI] s_vis by simp
  next
    fix c
    assume "?par c = Some None"
    then have "par c = Some None" by (simp split: if_splits)
    then show "c = s" by (rule parent_invD(2) [OF PI])
  next
    fix c p
    assume cp: "?par c = Some (Some p)"
    show "?par p \<noteq> None"
    proof (cases "c \<in> set (nbrs maze node) \<and> c \<notin> vis")
      case True
      with cp have "p = node" by simp
      then show ?thesis using node_vis I8 by auto
    next
      case False
      with cp have "par c = Some (Some p)" by simp
      then have "par p \<noteq> None" by (rule parent_invD(3) [OF PI])
      then show ?thesis by simp
    qed
  next
    fix c p
    assume cp: "?par c = Some (Some p)"
    show "c \<in> set (nbrs maze p)"
    proof (cases "c \<in> set (nbrs maze node) \<and> c \<notin> vis")
      case True
      with cp show ?thesis by simp
    next
      case False
      with cp have "par c = Some (Some p)" by simp
      then show ?thesis by (rule parent_invD(4) [OF PI])
    qed
  next
    fix c p
    assume cp: "?par c = Some (Some p)"
    show "\<exists>i. p \<in> ring maze s i \<and> c \<in> ring maze s (Suc i)"
    proof (cases "c \<in> set (nbrs maze node) \<and> c \<notin> vis")
      case True
      with cp have p: "p = node" by simp
      from True I1 have "c \<notin> ?W" by blast
      with True node_ring have "c \<in> ring maze s (Suc ?k)"
        unfolding ring_step by blast
      with node_ring p show ?thesis by blast
    next
      case False
      with cp have "par c = Some (Some p)" by simp
      then show ?thesis by (rule parent_invD(5) [OF PI])
    qed
  next
    fix c p
    assume cp: "?par c = Some (Some p)"
    show "\<exists>xs ys. concat layers @ layer @ [node] = xs @ p # ys
            \<and> (\<forall>u \<in> set xs. c \<notin> set (nbrs maze u))"
    proof (cases "c \<in> set (nbrs maze node) \<and> c \<notin> vis")
      case True
      with cp have p: "p = node" by simp
      have "\<forall>u \<in> set (concat layers @ layer). c \<notin> set (nbrs maze u)"
        using nb_done True by blast
      moreover have "concat layers @ layer @ [node] = (concat layers @ layer) @ p # []"
        using p by simp
      ultimately show ?thesis by blast
    next
      case False
      with cp have "par c = Some (Some p)" by simp
      then obtain xs ys where "concat layers @ layer = xs @ p # ys"
        and xs: "\<forall>u \<in> set xs. c \<notin> set (nbrs maze u)"
        using parent_invD(6) [OF PI] by blast
      then have "concat layers @ layer @ [node] = xs @ p # (ys @ [node])"
        by (metis append_Cons append_assoc)
      with xs show ?thesis by blast
    qed
  qed
  have c10: "(layer @ [node]) @ take m (q @ ?new) = spec_layer maze s ?k"
    using D(10) m by simp
  have "drop m q = spec_next_layer maze ?W layer" using D(11) by simp
  with I1 have "drop m q @ ?new = spec_next_layer maze ?W (layer @ [node])"
    by (simp add: spec_next_layer_snoc)
  with m have c11: "drop m (q @ ?new) = spec_next_layer maze ?W (layer @ [node])"
    by simp
  note c12 = D(12)
  show ?thesis
    unfolding bfs_inv_def
    by (intro conjI) (fact c1 c2 c3 c4 c5 I6 c7 c8 c9 c10 c11 c12)+
qed

lemma bfs_inv_next_layer:
  assumes "bfs_inv maze s goal layers layer 0 q vis par"
  shows "bfs_inv maze s goal (layers @ [layer]) [] (length q) q vis par"
proof -
  let ?k = "length layers"
  note D = bfs_invD [OF assms]
  have I2: "set layer = ring maze s ?k" using D(2) by simp
  have I3: "set q = (\<Union>u \<in> set layer. set (nbrs maze u)) - reached maze s ?k"
    using D(3) by simp
  have I1: "vis = reached maze s ?k \<union> set q" using D(4) by simp
  note I4 = D(5) and I6 = D(6) and I7 = D(7) and I8 = D(8) and PI = D(9)
  from I3 I2 have q: "set q = ring maze s (Suc ?k)" by (simp add: ring_step)
  have v: "vis = reached maze s (Suc ?k)"
    using I1 q reached_Suc_ring [of maze s ?k] by simp
  have l: "\<forall>i < Suc ?k. set ((layers @ [layer]) ! i) = ring maze s i"
    using I6 I2 by (auto simp: nth_append less_Suc_eq)
  have o1: "layer = spec_layer maze s ?k" using D(10) by simp
  have "q = spec_next_layer maze (reached maze s ?k) layer" using D(11) by simp
  with o1 have o2: "q = spec_layer maze s (Suc ?k)" by simp
  have o3: "\<forall>i < Suc ?k. (layers @ [layer]) ! i = spec_layer maze s i"
    using D(12) o1 by (auto simp: nth_append less_Suc_eq)
  show ?thesis
    unfolding bfs_inv_def
    using q v l I4 I7 I8 PI o2 o3 by simp
qed

lemma for_range_inv:
  assumes g: "is_grid maze"
  shows "bfs_inv maze s goal layers layer m q vis par \<Longrightarrow>
     (\<exists>ls p. for_range maze goal m layers (q, vis, par) layer = Inr (Returned ls p)
        \<and> bfs_found maze s goal ls p) \<or>
     (\<exists>q' vis' par' layer'.
        for_range maze goal m layers (q, vis, par) layer = Inr (Fallthrough q' vis' par' layer')
        \<and> bfs_inv maze s goal layers layer' 0 q' vis' par')"
proof (induction m arbitrary: layer q vis par)
  case 0
  then show ?case by simp
next
  case (Suc m)
  from bfs_invD(1) [OF Suc.prems] obtain node q0 where q: "q = node # q0"
    by (cases q) auto
  show ?case
  proof (cases "node = goal")
    case True
    with Suc.prems q have "bfs_found maze s goal (layers @ [layer @ [goal]]) par"
      unfolding bfs_found_def by blast
    with True q show ?thesis by simp
  next
    case False
    let ?st = "(q0 @ filter (\<lambda>c. c \<notin> vis) (nbrs maze node), vis \<union> set (nbrs maze node),
      (\<lambda>c. if c \<in> set (nbrs maze node) \<and> c \<notin> vis then Some (Some node) else par c))"
    have "for_range maze goal (Suc m) layers (q, vis, par) layer
            = for_range maze goal m layers ?st (layer @ [node])"
      using False q neighbors_grid [OF g] discover_distinct [OF distinct_nbrs]
      by simp
    moreover from Suc.prems q False
    have "bfs_inv maze s goal layers (layer @ [node]) m (fst ?st) (fst (snd ?st)) (snd (snd ?st))"
      using bfs_inv_step by simp
    ultimately show ?thesis using Suc.IH [of "layer @ [node]" "fst ?st" "fst (snd ?st)" "snd (snd ?st)"]
      by simp
  qed
qed

lemma finite_passable: "finite {c. passable maze c}"
proof -
  have "{c. passable maze c} \<subseteq> {0..<int (length maze)} \<times> {0..<int (length maze)}"
    by (auto simp: passable_def in_bounds_def)
  then show ?thesis by (rule finite_subset) simp
qed

lemma while_q_inv:
  assumes g: "is_grid maze"
  shows "bfs_inv maze s goal layers [] (length q) q vis par \<Longrightarrow>
     \<exists>ls p. while_q maze goal q vis par layers = Some (Inr (ls, p))
       \<and> (bfs_found maze s goal ls p \<or> bfs_exhausted maze s goal ls p)"
proof (induction "card ({c. passable maze c} - vis) + (if q = [] then 0 else 1)"
    arbitrary: q vis par layers rule: less_induct)
  case less
  show ?case
  proof (cases "q = []")
    case True
    then have "while_q maze goal q vis par layers = Some (Inr (layers, par))"
      by (subst while_q.simps) simp
    moreover from less.prems True have "bfs_exhausted maze s goal layers par"
      unfolding bfs_exhausted_def by auto
    ultimately show ?thesis by blast
  next
    case False
    from for_range_inv [OF g less.prems]
    consider (found) ls p where
        "for_range maze goal (length q) layers (q, vis, par) [] = Inr (Returned ls p)"
        "bfs_found maze s goal ls p"
      | (fall) q' vis' par' layer' where
        "for_range maze goal (length q) layers (q, vis, par) [] = Inr (Fallthrough q' vis' par' layer')"
        "bfs_inv maze s goal layers layer' 0 q' vis' par'"
      by blast
    then show ?thesis
    proof cases
      case found
      from False found(1) have "while_q maze goal q vis par layers = Some (Inr (ls, p))"
        by (subst while_q.simps) simp
      with found(2) show ?thesis by blast
    next
      case fall
      let ?P = "{c. passable maze c}"
      note N = bfs_inv_next_layer [OF fall(2)]
      have vis: "vis = reached maze s (length layers)"
        using bfs_invD(4) [OF less.prems] by simp
      have vis': "vis' = vis \<union> set q'" using bfs_invD(4) [OF fall(2)] vis by simp
      have q'sub: "set q' \<subseteq> ?P - vis"
        using bfs_invD(3) [OF fall(2)] vis in_nbrs by auto
      have "card (?P - vis') + (if q' = [] then 0 else 1)
              < card (?P - vis) + (if q = [] then 0 else 1)"
      proof (cases "q' = []")
        case True
        then show ?thesis using False vis' by simp
      next
        case nonempty: False
        then obtain c where "c \<in> set q'" by (cases q') auto
        with q'sub vis' have "?P - vis' \<subset> ?P - vis" by blast
        then have "card (?P - vis') < card (?P - vis)"
          by (intro psubset_card_mono) (simp_all add: finite_passable)
        with nonempty False show ?thesis by simp
      qed
      from less.hyps [OF this N] obtain ls p where
        "while_q maze goal q' vis' par' (layers @ [layer']) = Some (Inr (ls, p))"
        "bfs_found maze s goal ls p \<or> bfs_exhausted maze s goal ls p"
        by blast
      moreover from False fall(1)
      have "while_q maze goal q vis par layers
              = while_q maze goal q' vis' par' (layers @ [layer'])"
        by (subst while_q.simps) simp
      ultimately show ?thesis by simp
    qed
  qed
qed

lemma bfs_layers_inv:
  assumes "is_grid maze"
  shows "\<exists>ls p. bfs_layers maze s goal = Some (Inr (ls, p))
       \<and> (bfs_found maze s goal ls p \<or> bfs_exhausted maze s goal ls p)"
  unfolding bfs_layers_def
  using while_q_inv [OF assms, of s goal "[]" "[s]" "{s}" "[s \<mapsto> None]"] bfs_inv_init [of maze s goal]
  by simp

lemma legal_path_snoc:
  "legal_path maze p \<Longrightarrow> adjacent (last p) c \<Longrightarrow> passable maze c \<Longrightarrow> legal_path maze (p @ [c])"
  by (induction maze p rule: legal_path.induct) auto

lemma legal_path_snocD:
  "legal_path maze (p @ [c]) \<Longrightarrow> p \<noteq> [] \<Longrightarrow>
     legal_path maze p \<and> adjacent (last p) c \<and> passable maze c"
  by (induction maze p rule: legal_path.induct) auto

lemma path_last_reached:
  "legal_path maze p \<Longrightarrow> last p \<in> reached maze (hd p) (length p - 1)"
proof (induction p rule: rev_induct)
  case Nil
  then show ?case by simp
next
  case (snoc c xs)
  show ?case
  proof (cases "xs = []")
    case True
    then show ?thesis by simp
  next
    case False
    from legal_path_snocD [OF snoc.prems False]
    have lp: "legal_path maze xs" and adj: "adjacent (last xs) c" and pc: "passable maze c"
      by simp_all
    from snoc.IH [OF lp] have "last xs \<in> reached maze (hd xs) (length xs - 1)" .
    moreover from adj pc have "c \<in> set (nbrs maze (last xs))" by (simp add: in_nbrs)
    ultimately have "c \<in> reached maze (hd xs) (Suc (length xs - 1))" by auto
    with False show ?thesis by simp
  qed
qed

lemma reached_path:
  assumes "passable maze s"
  shows "c \<in> reached maze s k \<Longrightarrow> \<exists>p. path_between maze s c p \<and> length p \<le> Suc k"
proof (induction k arbitrary: c)
  case 0
  then have "path_between maze s c [s]" using assms by (simp add: path_between_def)
  then show ?case by force
next
  case (Suc k)
  show ?case
  proof (cases "c \<in> reached maze s k")
    case True
    from Suc.IH [OF this] show ?thesis using le_SucI by blast
  next
    case False
    with Suc.prems obtain c' where c': "c' \<in> reached maze s k" "c \<in> set (nbrs maze c')"
      by auto
    from Suc.IH [OF c'(1)] obtain p where p: "path_between maze s c' p" "length p \<le> Suc k"
      by blast
    from p(1) have ne: "p \<noteq> []" by (auto simp: path_between_def)
    from p(1) c'(2) have "legal_path maze (p @ [c])"
      by (intro legal_path_snoc) (simp_all add: path_between_def in_nbrs)
    with p(1) ne have "path_between maze s c (p @ [c])" by (simp add: path_between_def)
    with p(2) show ?thesis by force
  qed
qed

lemma path_reached:
  assumes "path_between maze s c p" and "length p \<le> Suc k"
  shows "c \<in> reached maze s k"
proof -
  from assms(1) have "c \<in> reached maze s (length p - 1)"
    using path_last_reached [of maze p] by (simp add: path_between_def)
  moreover from assms(2) have "length p - 1 \<le> k" by simp
  ultimately show ?thesis using reached_mono by blast
qed

lemma ring_shortest:
  assumes ps: "passable maze s" and c: "c \<in> ring maze s k"
  shows "(\<exists>p. path_between maze s c p \<and> length p = Suc k)
       \<and> (\<forall>p. path_between maze s c p \<longrightarrow> Suc k \<le> length p)"
proof -
  have lower: "Suc k \<le> length p" if p: "path_between maze s c p" for p
  proof (rule ccontr)
    assume "\<not> Suc k \<le> length p"
    moreover from p have "p \<noteq> []" by (auto simp: path_between_def)
    ultimately obtain j where j: "k = Suc j" "length p \<le> Suc j"
      by (cases k) (auto simp: Suc_le_eq)
    from path_reached [OF p j(2)] have "c \<in> reached maze s j" .
    with c j(1) show False by (simp add: ring_Suc)
  qed
  from c have "c \<in> reached maze s k" using ring_sub_reached by blast
  from reached_path [OF ps this] obtain p where p: "path_between maze s c p" "length p \<le> Suc k"
    by blast
  with lower [OF p(1)] have "length p = Suc k" by simp
  with p(1) lower show ?thesis by blast
qed

lemma ring_empty_above:
  assumes "ring maze s K = {}" and "c \<in> ring maze s i"
  shows "i < K"
proof (rule ccontr)
  assume "\<not> i < K"
  then have "i = K + (i - K)" by simp
  with ring_empty_stays [OF assms(1), of "i - K"] have "ring maze s i = {}" by simp
  with assms(2) show False by simp
qed

lemma ring_cells: "c \<in> ring maze s k \<Longrightarrow> c = s \<or> passable maze c"
  by (cases k) (auto simp: ring_0 ring_step in_nbrs)

lemma singleton_list: "set l = {x} \<Longrightarrow> distinct l \<Longrightarrow> l = [x]"
proof (cases l)
  case Nil
  assume "set l = {x}"
  with Nil show ?thesis by simp
next
  case (Cons a t)
  assume s: "set l = {x}" and d: "distinct l"
  from s Cons have a: "a = x" by auto
  have "t = []"
  proof (cases t)
    case Nil
    then show ?thesis .
  next
    case (Cons b u)
    with s \<open>l = a # t\<close> have "b = x" by auto
    with d a Cons \<open>l = a # t\<close> show ?thesis by simp
  qed
  with a Cons show ?thesis by simp
qed

lemma bfs_foundD:
  assumes "bfs_found maze s goal ls par"
  obtains layers layer where "ls = layers @ [layer @ [goal]]"
    and "goal \<in> ring maze s (length layers)"
    and "goal \<notin> set (concat layers)" and "goal \<notin> set layer"
    and "distinct (concat layers @ layer @ [goal])"
    and "\<forall>i < length layers. set (layers ! i) = ring maze s i"
    and "set layer \<subseteq> ring maze s (length layers)"
    and "parent_inv maze s (concat layers @ layer) par"
    and "reached maze s (length layers) \<subseteq> dom par"
proof -
  from assms obtain layers layer m q vis where ls: "ls = layers @ [layer @ [goal]]"
    and inv: "bfs_inv maze s goal layers layer (Suc m) (goal # q) vis par"
    unfolding bfs_found_def by blast
  note D = bfs_invD [OF inv]
  from D(2) have "goal \<in> ring maze s (length layers)"
    and "set layer \<subseteq> ring maze s (length layers)" by auto
  moreover from D(7) have "goal \<notin> set (concat layers)" and "goal \<notin> set layer" by auto
  moreover from D(5) have "distinct (concat layers @ layer @ [goal])" by auto
  moreover from D(4) D(8) have "reached maze s (length layers) \<subseteq> dom par" by blast
  ultimately show ?thesis using that ls D(6) D(9) by blast
qed

lemma bfs_exhaustedD:
  assumes "bfs_exhausted maze s goal ls par"
  shows "ring maze s (length ls) = {}"
    and "dom par = reached maze s (length ls)"
    and "goal \<notin> set (concat ls)"
    and "\<forall>i < length ls. set (ls ! i) = ring maze s i"
    and "distinct (concat ls)"
    and "parent_inv maze s (concat ls) par"
proof -
  from assms obtain vis where inv: "bfs_inv maze s goal ls [] 0 [] vis par"
    unfolding bfs_exhausted_def by blast
  note D = bfs_invD [OF inv]
  from D(2) show "ring maze s (length ls) = {}" by simp
  from D(4) D(8) show "dom par = reached maze s (length ls)" by simp
  from D(7) show "goal \<notin> set (concat ls)" by simp
  from D(6) show "\<forall>i < length ls. set (ls ! i) = ring maze s i" .
  from D(5) show "distinct (concat ls)" by simp
  from D(9) show "parent_inv maze s (concat ls) par" by simp
qed

lemma exhausted_covers:
  assumes ps: "passable maze s" and ex: "bfs_exhausted maze s goal ls par"
    and r: "reachable maze s c"
  shows "c \<in> set (concat ls) \<and> par c \<noteq> None"
proof -
  from r obtain p where p: "path_between maze s c p" unfolding reachable_def by blast
  from path_reached [OF p, of "length p"] have "c \<in> reached maze s (length p)" by simp
  from reached_ring [OF this] obtain i where i: "c \<in> ring maze s i" by blast
  note E = bfs_exhaustedD [OF ex]
  from ring_empty_above [OF E(1) i] have lt: "i < length ls" .
  with E(4) i have "c \<in> set (ls ! i)" by simp
  with nth_mem [OF lt] have "c \<in> set (concat ls)" by auto
  moreover from i have "c \<in> reached maze s i" using ring_sub_reached by blast
  with lt have "c \<in> reached maze s (length ls)"
    using reached_mono [of i "length ls" maze s] by auto
  with E(2) have "par c \<noteq> None" by auto
  ultimately show ?thesis by simp
qed

lemma bfs_result_distinct:
  assumes "bfs_found maze s goal ls par \<or> bfs_exhausted maze s goal ls par"
  shows "distinct (concat ls)"
  using assms
proof
  assume "bfs_found maze s goal ls par"
  then show ?thesis by (rule bfs_foundD) simp
next
  assume "bfs_exhausted maze s goal ls par"
  then show ?thesis by (rule bfs_exhaustedD)
qed

lemma bfs_result_cells:
  assumes "bfs_found maze s goal ls par \<or> bfs_exhausted maze s goal ls par"
  shows "set (concat ls) \<subseteq> insert s {c. passable maze c}"
proof -
  have rings: "set (concat layers) \<subseteq> insert s {c. passable maze c}"
    if "\<forall>i < length layers. set (layers ! i) = ring maze s i" for layers
    using concat_layers_within [OF that] reached_ring ring_cells by blast
  from assms show ?thesis
  proof
    assume "bfs_found maze s goal ls par"
    then show ?thesis
    proof (rule bfs_foundD)
      fix layers layer
      assume "ls = layers @ [layer @ [goal]]" "goal \<in> ring maze s (length layers)"
        "\<forall>i < length layers. set (layers ! i) = ring maze s i"
        "set layer \<subseteq> ring maze s (length layers)"
      then have "set (concat ls) = set (concat layers) \<union> set layer \<union> {goal}"
        and "set (concat layers) \<subseteq> insert s {c. passable maze c}"
        and "set layer \<union> {goal} \<subseteq> ring maze s (length layers)"
        using rings [of layers] by auto
      moreover have "ring maze s (length layers) \<subseteq> insert s {c. passable maze c}"
        using ring_cells by blast
      ultimately show ?thesis by blast
    qed
  next
    assume "bfs_exhausted maze s goal ls par"
    from rings [OF bfs_exhaustedD(4) [OF this]] show ?thesis .
  qed
qed

lemma bfs_result_first:
  assumes "bfs_found maze s goal ls par \<or> bfs_exhausted maze s goal ls par"
  shows "ls \<noteq> [] \<and> hd ls = [s]"
  using assms
proof
  assume "bfs_found maze s goal ls par"
  then show ?thesis
  proof (rule bfs_foundD)
    fix layers layer
    assume ls: "ls = layers @ [layer @ [goal]]" and g: "goal \<in> ring maze s (length layers)"
      and gl: "goal \<notin> set layer"
      and d: "distinct (concat layers @ layer @ [goal])"
      and r: "\<forall>i < length layers. set (layers ! i) = ring maze s i"
      and l: "set layer \<subseteq> ring maze s (length layers)"
    show ?thesis
    proof (cases layers)
      case Nil
      with g l have "goal = s" "set layer \<subseteq> {goal}" by (auto simp: ring_0)
      with gl have "goal = s" "\<forall>x. x \<notin> set layer" by blast+
      then have "goal = s" "layer = []" by (simp, cases layer) auto
      with Nil ls show ?thesis by simp
    next
      case (Cons l0 rest)
      with r have "set l0 = {s}" by (auto simp: ring_0)
      moreover from d Cons have "distinct l0" by simp
      ultimately have "l0 = [s]" by (rule singleton_list)
      with Cons ls show ?thesis by simp
    qed
  qed
next
  assume ex: "bfs_exhausted maze s goal ls par"
  note E = bfs_exhaustedD [OF ex]
  from E(1) have ne: "ls \<noteq> []" by (auto simp: ring_0)
  then obtain l0 rest where ls: "ls = l0 # rest" by (cases ls) auto
  with E(4) have "set l0 = {s}" by (auto simp: ring_0)
  moreover from E(5) ls have "distinct l0" by simp
  ultimately have "l0 = [s]" by (rule singleton_list)
  with ls show ?thesis by simp
qed

lemma distinct_concat_disjoint:
  assumes "distinct (concat xs)" and "i < j" and "j < length xs"
  shows "set (xs ! i) \<inter> set (xs ! j) = {}"
proof -
  from assms(3) have "xs = take j xs @ xs ! j # drop (Suc j) xs"
    by (rule id_take_nth_drop)
  then have "concat xs = concat (take j xs) @ xs ! j @ concat (drop (Suc j) xs)"
    by (metis concat.simps(2) concat_append)
  with assms(1) have "set (concat (take j xs)) \<inter> set (xs ! j) = {}" by auto
  moreover from assms(2,3) have "xs ! i \<in> set (take j xs)"
    by (auto simp: in_set_conv_nth intro!: exI [of _ i])
  ultimately show ?thesis by auto
qed

lemma distinct_concat_nth:
  assumes "distinct (concat xs)" and "i < length xs"
  shows "distinct (xs ! i)"
  using assms by (auto simp: distinct_concat_iff)

text \<open>
  Claim C10. On a grid, for every start and goal, the layer sequence returned by
  \<open>_bfs_layers\<close> holds each cell at most once: the concatenation of the layers has no
  repeated cell, so no layer repeats a cell and two different layers share none.
\<close>

theorem layers_hold_each_cell_once:
  assumes "is_grid maze"
  shows "\<exists>layers parent. bfs_layers maze start goal = Some (Inr (layers, parent)) \<and>
     distinct (concat layers) \<and>
     (\<forall>i < length layers. distinct (layers ! i)) \<and>
     (\<forall>i j. i < j \<and> j < length layers \<longrightarrow> set (layers ! i) \<inter> set (layers ! j) = {})"
proof -
  from bfs_layers_inv [OF assms, of start goal] obtain ls p where
    r: "bfs_layers maze start goal = Some (Inr (ls, p))"
    and f: "bfs_found maze start goal ls p \<or> bfs_exhausted maze start goal ls p"
    by blast
  from bfs_result_distinct [OF f] have d: "distinct (concat ls)" .
  with r show ?thesis
    using distinct_concat_nth [OF d] distinct_concat_disjoint [OF d] by blast
qed

theorem layers_hold_each_cell_once_witness:
  "is_grid [[True, True], [False, True]] \<and>
   (\<exists>layers parent. bfs_layers [[True, True], [False, True]] (0, 0) (1, 1)
        = Some (Inr (layers, parent)) \<and> distinct (concat layers))"
  using layers_hold_each_cell_once [of "[[True, True], [False, True]]" "(0, 0)" "(1, 1)"]
  by (auto simp: is_grid_def)

text \<open>
  Claim C8. On a grid, for every start and goal (reachable or not), \<open>_bfs_layers\<close>
  returns: the \<open>while\<close> loop ends, without an exception. The cells it dequeues are
  pairwise different, so their number is at most the number of passable cells plus one
  (the start).
\<close>

theorem bfs_layers_terminates:
  assumes "is_grid maze"
  shows "\<exists>layers parent. bfs_layers maze start goal = Some (Inr (layers, parent)) \<and>
     length (concat layers) \<le> Suc (card {c. passable maze c})"
proof -
  from bfs_layers_inv [OF assms, of start goal] obtain ls p where
    r: "bfs_layers maze start goal = Some (Inr (ls, p))"
    and f: "bfs_found maze start goal ls p \<or> bfs_exhausted maze start goal ls p"
    by blast
  from bfs_result_distinct [OF f] have "length (concat ls) = card (set (concat ls))"
    by (rule distinct_card [symmetric])
  also have "\<dots> \<le> card (insert start {c. passable maze c})"
    using bfs_result_cells [OF f] finite_passable [of maze] by (intro card_mono) simp_all
  also have "\<dots> \<le> Suc (card {c. passable maze c})"
    using finite_passable [of maze] by (simp add: card_insert_if)
  finally show ?thesis using r by blast
qed

lemma reached_concat:
  assumes "\<forall>i < length layers. set (layers ! i) = ring maze s i"
  shows "reached maze s (length layers) = insert s (\<Union>u \<in> set (concat layers). set (nbrs maze u))"
proof (rule set_eqI, rule iffI)
  fix c
  assume "c \<in> reached maze s (length layers)"
  from reached_ring [OF this] obtain i where i: "i \<le> length layers" "c \<in> ring maze s i"
    by blast
  show "c \<in> insert s (\<Union>u \<in> set (concat layers). set (nbrs maze u))"
  proof (cases i)
    case 0
    with i(2) show ?thesis by (simp add: ring_0)
  next
    case (Suc j)
    with i(2) have "c \<in> ring maze s (Suc j)" by simp
    then obtain u where u: "u \<in> ring maze s j" "c \<in> set (nbrs maze u)"
      unfolding ring_step by blast
    from Suc i(1) have lt: "j < length layers" by simp
    with assms u(1) have "u \<in> set (layers ! j)" by simp
    with nth_mem [OF lt] have "u \<in> set (concat layers)" by auto
    with u(2) show ?thesis by blast
  qed
next
  fix c
  assume c: "c \<in> insert s (\<Union>u \<in> set (concat layers). set (nbrs maze u))"
  have "s \<in> reached maze s 0" by simp
  then have "s \<in> reached maze s (length layers)"
    using reached_mono [of 0 "length layers" maze s] by blast
  with c show "c \<in> reached maze s (length layers)"
    using concat_layers_nbrs [OF assms] by blast
qed

lemma shortest_ring:
  assumes ps: "passable maze s"
  shows "c \<in> ring maze s k \<longleftrightarrow> shortest_path_length maze s c k"
proof
  assume "c \<in> ring maze s k"
  from ring_shortest [OF ps this] show "shortest_path_length maze s c k"
    unfolding shortest_path_length_def .
next
  assume sp: "shortest_path_length maze s c k"
  then obtain p where p: "path_between maze s c p" "length p = Suc k"
    unfolding shortest_path_length_def by blast
  from sp have low: "\<And>p. path_between maze s c p \<Longrightarrow> Suc k \<le> length p"
    unfolding shortest_path_length_def by blast
  from path_reached [OF p(1), of k] p(2) have r: "c \<in> reached maze s k" by simp
  show "c \<in> ring maze s k"
  proof (cases k)
    case 0
    with r show ?thesis by (simp add: ring_0)
  next
    case (Suc j)
    have "c \<notin> reached maze s j"
    proof
      assume "c \<in> reached maze s j"
      from reached_path [OF ps this] obtain p' where
        "path_between maze s c p'" "length p' \<le> Suc j" by blast
      with low [of p'] Suc show False by simp
    qed
    with r Suc show ?thesis by (simp add: ring_Suc)
  qed
qed

lemma bfs_found_order:
  assumes "bfs_found maze s goal ls par"
  obtains layers layer where "ls = layers @ [layer @ [goal]]"
    and "\<forall>i < length layers. layers ! i = spec_layer maze s i"
    and "layer = takeWhile (\<lambda>c. c \<noteq> goal) (spec_layer maze s (length layers))"
    and "dom par = insert s (\<Union>u \<in> set (concat layers @ layer). set (nbrs maze u))"
    and "goal \<in> ring maze s (length layers)"
    and "goal \<notin> set (concat layers)" and "goal \<notin> set layer"
proof -
  from assms obtain layers layer m q vis where ls: "ls = layers @ [layer @ [goal]]"
    and inv: "bfs_inv maze s goal layers layer (Suc m) (goal # q) vis par"
    unfolding bfs_found_def by blast
  note D = bfs_invD [OF inv]
  from D(7) have gl: "goal \<notin> set (concat layers)" "goal \<notin> set layer" by auto
  from D(10) have "spec_layer maze s (length layers) = layer @ goal # take m q" by simp
  moreover from gl(2) have "takeWhile (\<lambda>c. c \<noteq> goal) (layer @ goal # take m q) = layer"
    by (subst takeWhile_append2) auto
  ultimately have tw: "layer = takeWhile (\<lambda>c. c \<noteq> goal) (spec_layer maze s (length layers))"
    by simp
  from D(3) D(4) D(8)
  have "dom par = reached maze s (length layers) \<union> (\<Union>u \<in> set layer. set (nbrs maze u))"
    by auto
  with reached_concat [OF D(6)]
  have dom: "dom par = insert s (\<Union>u \<in> set (concat layers @ layer). set (nbrs maze u))"
    by auto
  from D(2) have "goal \<in> ring maze s (length layers)" by auto
  with ls D(12) tw dom gl show ?thesis using that by blast
qed

text \<open>
  Claim C3. When the goal is reachable, \<open>_bfs_layers\<close> stops as soon as the goal is
  dequeued. With \<open>d\<close> the distance of the goal: it returns \<open>d + 1\<close> layers; the layers
  before the last are the complete layers of the specification (layer \<open>i\<close> holds exactly
  the cells at distance \<open>i\<close>, in the order of discovery); the last layer is the layer of
  the goal cut after the goal, that is the cells of layer \<open>d\<close> before the goal followed
  by the goal; the goal occurs nowhere else. Nothing is computed past the dequeue of the
  goal: the cells recorded in the parent dictionary are the start and the passable
  neighbours of the cells dequeued before the goal, so the goal itself was not expanded.
\<close>

theorem search_stops_at_goal:
  assumes "is_grid maze" and "passable maze start" and "passable maze goal"
    and "reachable maze start goal"
  shows "\<exists>layers parent d. bfs_layers maze start goal = Some (Inr (layers, parent)) \<and>
     shortest_path_length maze start goal d \<and>
     length layers = Suc d \<and>
     (\<forall>i < d. layers ! i = spec_layer maze start i) \<and>
     layers ! d = takeWhile (\<lambda>c. c \<noteq> goal) (spec_layer maze start d) @ [goal] \<and>
     (\<forall>i c. c \<in> set (spec_layer maze start i) \<longleftrightarrow> shortest_path_length maze start c i) \<and>
     (\<forall>c. parent c \<noteq> None \<longleftrightarrow>
        c = start \<or>
        (passable maze c \<and>
         (\<exists>u \<in> set (concat (butlast layers) @ butlast (last layers)). adjacent u c))) \<and>
     layers \<noteq> [] \<and> last layers \<noteq> [] \<and> last (last layers) = goal \<and>
     goal \<notin> set (butlast (last layers)) \<and> goal \<notin> set (concat (butlast layers))"
proof -
  from bfs_layers_inv [OF assms(1), of start goal] obtain ls par where
    r: "bfs_layers maze start goal = Some (Inr (ls, par))"
    and f: "bfs_found maze start goal ls par \<or> bfs_exhausted maze start goal ls par"
    by blast
  from f have "bfs_found maze start goal ls par"
    using exhausted_covers [OF assms(2) _ assms(4)] bfs_exhaustedD(3) by blast
  then show ?thesis
  proof (rule bfs_found_order)
    fix layers layer
    assume ls: "ls = layers @ [layer @ [goal]]"
      and o: "\<forall>i < length layers. layers ! i = spec_layer maze start i"
      and tw: "layer = takeWhile (\<lambda>c. c \<noteq> goal) (spec_layer maze start (length layers))"
      and dom: "dom par = insert start (\<Union>u \<in> set (concat layers @ layer). set (nbrs maze u))"
      and g: "goal \<in> ring maze start (length layers)"
      and gl: "goal \<notin> set (concat layers)" "goal \<notin> set layer"
    let ?d = "length layers"
    have 1: "shortest_path_length maze start goal ?d"
      using shortest_ring [OF assms(2)] g by blast
    have 2: "length ls = Suc ?d" using ls by simp
    have 3: "\<forall>i < ?d. ls ! i = spec_layer maze start i"
      using o ls by (simp add: nth_append)
    have 4: "ls ! ?d = takeWhile (\<lambda>c. c \<noteq> goal) (spec_layer maze start ?d) @ [goal]"
      using ls tw by simp
    have 5: "\<forall>i c. c \<in> set (spec_layer maze start i) \<longleftrightarrow> shortest_path_length maze start c i"
      using shortest_ring [OF assms(2)] by (simp add: spec_layer_set)
    have bl: "concat (butlast ls) @ butlast (last ls) = concat layers @ layer"
      using ls by simp
    have 6: "\<forall>c. par c \<noteq> None \<longleftrightarrow>
        c = start \<or>
        (passable maze c \<and> (\<exists>u \<in> set (concat (butlast ls) @ butlast (last ls)). adjacent u c))"
    proof
      fix c
      have "par c \<noteq> None \<longleftrightarrow> c \<in> dom par" by auto
      also have "\<dots> \<longleftrightarrow> c = start \<or> (\<exists>u \<in> set (concat layers @ layer). c \<in> set (nbrs maze u))"
        unfolding dom by blast
      also have "\<dots> \<longleftrightarrow> c = start \<or>
          (passable maze c \<and> (\<exists>u \<in> set (concat layers @ layer). adjacent u c))"
        by (simp only: in_nbrs) blast
      finally show "par c \<noteq> None \<longleftrightarrow>
        c = start \<or>
        (passable maze c \<and> (\<exists>u \<in> set (concat (butlast ls) @ butlast (last ls)). adjacent u c))"
        unfolding bl .
    qed
    have 7: "ls \<noteq> [] \<and> last ls \<noteq> [] \<and> last (last ls) = goal \<and>
       goal \<notin> set (butlast (last ls)) \<and> goal \<notin> set (concat (butlast ls))"
      using ls gl by simp
    show ?thesis
      apply (rule exI [of _ ls], rule exI [of _ par], rule exI [of _ ?d])
      using r 1 2 3 4 5 6 7 by (intro conjI) (assumption | elim conjE)+
  qed
qed

text \<open>
  Claim C1. When the goal is reachable from a passable start, the goal occurs in exactly
  one layer of the sequence \<open>_bfs_layers\<close> returns, and the index of that layer is the
  number of moves of a shortest path from start to goal.
\<close>

theorem goal_layer_is_distance:
  assumes "is_grid maze" and "passable maze start" and "passable maze goal"
    and "reachable maze start goal"
  shows "\<exists>layers parent d. bfs_layers maze start goal = Some (Inr (layers, parent)) \<and>
     d < length layers \<and> goal \<in> set (layers ! d) \<and>
     (\<forall>i < length layers. goal \<in> set (layers ! i) \<longrightarrow> i = d) \<and>
     shortest_path_length maze start goal d"
proof -
  from bfs_layers_inv [OF assms(1), of start goal] obtain ls p where
    r: "bfs_layers maze start goal = Some (Inr (ls, p))"
    and f: "bfs_found maze start goal ls p \<or> bfs_exhausted maze start goal ls p"
    by blast
  from f have "bfs_found maze start goal ls p"
    using exhausted_covers [OF assms(2) _ assms(4)] bfs_exhaustedD(3) by blast
  then show ?thesis
  proof (rule bfs_foundD)
    fix layers layer
    assume ls: "ls = layers @ [layer @ [goal]]"
      and g: "goal \<in> ring maze start (length layers)"
      and gl: "goal \<notin> set (concat layers)"
    let ?d = "length layers"
    have 1: "?d < length ls" using ls by simp
    have 2: "goal \<in> set (ls ! ?d)" using ls by simp
    have 3: "\<forall>i < length ls. goal \<in> set (ls ! i) \<longrightarrow> i = ?d"
    proof (intro allI impI)
      fix i
      assume i: "i < length ls" "goal \<in> set (ls ! i)"
      show "i = ?d"
      proof (rule ccontr)
        assume "i \<noteq> ?d"
        with i(1) ls have lt: "i < ?d" by simp
        with i(2) ls have "goal \<in> set (layers ! i)" by (simp add: nth_append)
        with nth_mem [OF lt] have "goal \<in> set (concat layers)" by auto
        with gl show False by simp
      qed
    qed
    have 4: "shortest_path_length maze start goal ?d"
      unfolding shortest_path_length_def by (rule ring_shortest [OF assms(2) g])
    from r 1 2 3 4 show ?thesis by blast
  qed
qed

lemma walk_back_None: "walk_back par None path = Some path"
  by (subst walk_back.simps) simp

lemma walk_back_Some:
  "walk_back par (Some c) path = walk_back par (dict_get par c) (path @ [c])"
  by (subst walk_back.simps) simp

lemma walk_back_ring:
  assumes PI: "parent_inv maze s dq par" and ps: "passable maze s"
  shows "c \<in> ring maze s i \<Longrightarrow> par c \<noteq> None \<Longrightarrow>
     \<exists>chain. walk_back par (Some c) acc = Some (acc @ chain) \<and> chain \<noteq> [] \<and>
       hd chain = c \<and> last chain = s \<and> distinct chain \<and>
       set chain \<subseteq> reached maze s i \<and> legal_path maze (rev chain)"
proof (induction i arbitrary: c acc)
  case 0
  then have c: "c = s" by (simp add: ring_0)
  have "walk_back par (Some c) acc = Some (acc @ [s])"
    using parent_invD(1) [OF PI] c
    by (simp add: walk_back_Some walk_back_None dict_get_def)
  with ps c show ?case by simp
next
  case (Suc i)
  from Suc.prems(2) obtain v where v: "par c = Some v" by blast
  have "v \<noteq> None"
  proof
    assume "v = None"
    with v have "c = s" using parent_invD(2) [OF PI] by simp
    then have "c \<in> ring maze s 0" by (simp add: ring_0)
    with Suc.prems(1) show False using ring_unique by blast
  qed
  then obtain p where p: "par c = Some (Some p)" using v by blast
  note pn = parent_invD(3) [OF PI p] and nb = parent_invD(4) [OF PI p]
  from parent_invD(5) [OF PI p] obtain j where
    j: "p \<in> ring maze s j" "c \<in> ring maze s (Suc j)" by blast
  from ring_unique [OF j(2) Suc.prems(1)] j(1) have pr: "p \<in> ring maze s i" by simp
  from Suc.IH [OF pr pn, of "acc @ [c]"] obtain chain where
    w: "walk_back par (Some p) (acc @ [c]) = Some ((acc @ [c]) @ chain)"
    and ne: "chain \<noteq> []" and h: "hd chain = p" and l: "last chain = s"
    and d: "distinct chain" and sub: "set chain \<subseteq> reached maze s i"
    and lp: "legal_path maze (rev chain)"
    by blast
  let ?chain = "c # chain"
  have 1: "walk_back par (Some c) acc = Some (acc @ ?chain)"
    using w p by (simp add: walk_back_Some [of par c] dict_get_def)
  from Suc.prems(1) have cn: "c \<notin> reached maze s i" and cr: "c \<in> reached maze s (Suc i)"
    unfolding ring_Suc by blast+
  from cn sub d have 2: "distinct ?chain" by auto
  have "reached maze s i \<subseteq> reached maze s (Suc i)" by (rule reached_mono) simp
  with sub cr have 3: "set ?chain \<subseteq> reached maze s (Suc i)" by auto
  from ne h have "last (rev chain) = p" by (simp add: last_rev)
  with nb have "adjacent (last (rev chain)) c" "passable maze c" by (simp_all add: in_nbrs)
  with lp have "legal_path maze (rev chain @ [c])" by (intro legal_path_snoc)
  then have 4: "legal_path maze (rev ?chain)" by simp
  from ne l have 5: "last ?chain = s" by simp
  from 1 2 3 4 5 show ?case by (intro exI [of _ ?chain]) simp
qed

lemma parent_key_ring:
  assumes "parent_inv maze s dq par" and "par c \<noteq> None"
  shows "\<exists>i. c \<in> ring maze s i"
proof -
  from assms(2) obtain v where v: "par c = Some v" by blast
  show ?thesis
  proof (cases v)
    case None
    with v have "c = s" using parent_invD(2) [OF assms(1)] by simp
    then have "c \<in> ring maze s 0" by (simp add: ring_0)
    then show ?thesis ..
  next
    case (Some p)
    with v parent_invD(5) [OF assms(1), of c p] show ?thesis by blast
  qed
qed

lemma parent_key_reachable:
  assumes "parent_inv maze s dq par" and "passable maze s" and "par c \<noteq> None"
  shows "reachable maze s c"
proof -
  from parent_key_ring [OF assms(1,3)] obtain i where "c \<in> ring maze s i" ..
  then have "c \<in> reached maze s i" using ring_sub_reached by blast
  from reached_path [OF assms(2) this] show ?thesis unfolding reachable_def by blast
qed

lemma bfs_result_parent:
  assumes "bfs_found maze s goal ls par \<or> bfs_exhausted maze s goal ls par"
  shows "\<exists>dq rest. concat ls = dq @ rest \<and> parent_inv maze s dq par"
  using assms
proof
  assume "bfs_found maze s goal ls par"
  then show ?thesis
  proof (rule bfs_foundD)
    fix layers layer
    assume "ls = layers @ [layer @ [goal]]" "parent_inv maze s (concat layers @ layer) par"
    then have "concat ls = (concat layers @ layer) @ [goal]
        \<and> parent_inv maze s (concat layers @ layer) par" by simp
    then show ?thesis by blast
  qed
next
  assume "bfs_exhausted maze s goal ls par"
  from bfs_exhaustedD(6) [OF this] have "concat ls = concat ls @ [] \<and> parent_inv maze s (concat ls) par"
    by simp
  then show ?thesis by blast
qed

lemma found_goal_recorded:
  assumes "bfs_found maze s goal ls par"
  shows "par goal \<noteq> None"
  using assms
proof (rule bfs_foundD)
  fix layers :: "cell list list"
  assume "goal \<in> ring maze s (length layers)" "reached maze s (length layers) \<subseteq> dom par"
  then show ?thesis using ring_sub_reached by blast
qed

lemma reconstruct_path_result:
  assumes PI: "parent_inv maze s dq par" and ps: "passable maze s" and g: "par goal \<noteq> None"
  shows "\<exists>p. reconstruct_path par s goal = Some p \<and> p \<noteq> [] \<and> hd p = s \<and> last p = goal \<and>
     distinct p \<and> legal_path maze p"
proof -
  from parent_key_ring [OF PI g] obtain i where "goal \<in> ring maze s i" ..
  from walk_back_ring [OF PI ps this g, of "[]"] obtain chain where
    w: "walk_back par (Some goal) [] = Some chain" and ne: "chain \<noteq> []"
    and h: "hd chain = goal" and l: "last chain = s" and d: "distinct chain"
    and lp: "legal_path maze (rev chain)"
    by auto
  from w g have "reconstruct_path par s goal = Some (rev chain)"
    by (auto simp: reconstruct_path_def)
  moreover from ne h l have "hd (rev chain) = s" "last (rev chain) = goal"
    by (simp_all add: hd_rev last_rev)
  ultimately show ?thesis using ne d lp by simp
qed

text \<open>
  Claim C2. For the parent dictionary \<open>_bfs_layers\<close> returns on a grid with a passable
  start: when the goal is not a key, \<open>_reconstruct_path\<close> returns the empty list; an
  unreachable goal is never a key; and when the goal is a key, \<open>_reconstruct_path\<close>
  returns (its \<open>while\<close> loop ends) a list that begins with start, ends with goal,
  repeats no cell, and in which every cell is passable and every step is a move to one
  of the four cells next to the previous one.
\<close>

theorem reconstructed_path_is_legal:
  assumes "is_grid maze" and "passable maze start" and "passable maze goal"
  shows "\<exists>layers parent. bfs_layers maze start goal = Some (Inr (layers, parent)) \<and>
     (parent goal = None \<longrightarrow> reconstruct_path parent start goal = Some []) \<and>
     (\<not> reachable maze start goal \<longrightarrow> parent goal = None) \<and>
     (parent goal \<noteq> None \<longrightarrow>
        (\<exists>p. reconstruct_path parent start goal = Some p \<and> p \<noteq> [] \<and>
           hd p = start \<and> last p = goal \<and> distinct p \<and> legal_path maze p))"
proof -
  from bfs_layers_inv [OF assms(1), of start goal] obtain ls par where
    r: "bfs_layers maze start goal = Some (Inr (ls, par))"
    and f: "bfs_found maze start goal ls par \<or> bfs_exhausted maze start goal ls par"
    by blast
  from bfs_result_parent [OF f] obtain dq where PI: "parent_inv maze start dq par" by blast
  have 1: "par goal = None \<longrightarrow> reconstruct_path par start goal = Some []"
    by (simp add: reconstruct_path_def)
  have 2: "\<not> reachable maze start goal \<longrightarrow> par goal = None"
    using parent_key_reachable [OF PI assms(2)] by blast
  have 3: "par goal \<noteq> None \<longrightarrow>
        (\<exists>p. reconstruct_path par start goal = Some p \<and> p \<noteq> [] \<and>
           hd p = start \<and> last p = goal \<and> distinct p \<and> legal_path maze p)"
    using reconstruct_path_result [OF PI assms(2)] by blast
  show ?thesis
    apply (rule exI [of _ ls], rule exI [of _ par])
    using r 1 2 3 by blast
qed

lemma discover_keeps_entries:
  "dom par = vis \<Longrightarrow> discover node nbs (q, vis, par) = (q', vis', par') \<Longrightarrow>
     dom par' = vis' \<and> (\<forall>c. par c \<noteq> None \<longrightarrow> par' c = par c)"
proof (induction nbs arbitrary: q vis par)
  case Nil
  then show ?case by simp
next
  case (Cons nb nbs)
  show ?case
  proof (cases "nb \<in> vis")
    case True
    with Cons.prems Cons.IH [of par vis q] show ?thesis by simp
  next
    case False
    with Cons.prems(1) have fresh: "par nb = None" by auto
    from False Cons.prems(2)
    have "discover node nbs (q @ [nb], insert nb vis, par(nb \<mapsto> Some node)) = (q', vis', par')"
      by simp
    moreover from Cons.prems(1) have "dom (par(nb \<mapsto> Some node)) = insert nb vis" by simp
    ultimately have "dom par' = vis'
        \<and> (\<forall>c. (par(nb \<mapsto> Some node)) c \<noteq> None \<longrightarrow> par' c = (par(nb \<mapsto> Some node)) c)"
      by (rule Cons.IH [rotated])
    with fresh show ?thesis by (auto simp: fun_upd_def split: if_splits)
  qed
qed

text \<open>
  Claim C5, as stated, fails: on return the dictionary need not hold every cell reachable
  from start. On the \<open>2 \<times> 2\<close> grid with no wall, with goal = start = \<open>(0, 0)\<close>, the
  search returns at once; the cell \<open>(1, 0)\<close> is reachable from start (by the path
  shown) and has no entry.
\<close>

theorem parent_map_misses_reachable_cell:
  "path_between [[True, True], [True, True]] (0, 0) (1, 0) [(0, 0), (1, 0)] \<and>
   parent_entry (bfs_layers [[True, True], [True, True]] (0, 0) (0, 0)) (1, 0) = Some None"
  by code_simp

text \<open>
  Claim C5, amended. On a grid with a passable start, in the dictionary \<open>_bfs_layers\<close>
  returns: start maps to \<open>None\<close> and is the only key that does; every other key maps to
  the first cell, in the order of dequeuing, from which a move to it is legal (the cell
  that discovered it first, so no later discoverer replaced it); every key is reachable
  from start; and when the goal is not a key (the search ran until the queue was empty),
  every cell reachable from start is a key. Moreover the loop over the neighbours, the
  only place that writes the dictionary, never changes an entry that is set, as long as
  the keys of the dictionary are the visited cells, and it keeps them so.
\<close>

theorem parent_map_first_discovery:
  assumes "is_grid maze" and "passable maze start"
  shows "\<exists>layers parent. bfs_layers maze start goal = Some (Inr (layers, parent)) \<and>
     parent start = Some None \<and>
     (\<forall>c. parent c = Some None \<longrightarrow> c = start) \<and>
     (\<forall>c p. parent c = Some (Some p) \<longrightarrow> first_discoverer maze (concat layers) p c) \<and>
     (\<forall>c. parent c \<noteq> None \<longrightarrow> reachable maze start c) \<and>
     (parent goal = None \<longrightarrow> (\<forall>c. reachable maze start c \<longrightarrow> parent c \<noteq> None)) \<and>
     (\<forall>node nbs q vis par q' vis' par'.
        dom par = vis \<and> discover node nbs (q, vis, par) = (q', vis', par') \<longrightarrow>
        dom par' = vis' \<and> (\<forall>c. par c \<noteq> None \<longrightarrow> par' c = par c))"
proof -
  from bfs_layers_inv [OF assms(1), of start goal] obtain ls par where
    r: "bfs_layers maze start goal = Some (Inr (ls, par))"
    and f: "bfs_found maze start goal ls par \<or> bfs_exhausted maze start goal ls par"
    by blast
  from bfs_result_parent [OF f] obtain dq rest where
    dq: "concat ls = dq @ rest" and PI: "parent_inv maze start dq par" by blast
  have 1: "par start = Some None" by (rule parent_invD(1) [OF PI])
  have 2: "\<forall>c. par c = Some None \<longrightarrow> c = start" using parent_invD(2) [OF PI] by blast
  have 3: "\<forall>c p. par c = Some (Some p) \<longrightarrow> first_discoverer maze (concat ls) p c"
  proof (intro allI impI)
    fix c p
    assume cp: "par c = Some (Some p)"
    from parent_invD(4) [OF PI cp] have a: "adjacent p c" "passable maze c"
      by (simp_all add: in_nbrs)
    from parent_invD(6) [OF PI cp] obtain xs ys where
      xs: "dq = xs @ p # ys" "\<forall>u \<in> set xs. c \<notin> set (nbrs maze u)" by blast
    from xs(2) a(2) have "\<forall>u \<in> set xs. \<not> adjacent u c" by (simp add: in_nbrs)
    moreover from xs(1) dq have "concat ls = xs @ p # (ys @ rest)" by simp
    ultimately show "first_discoverer maze (concat ls) p c"
      unfolding first_discoverer_def using a by blast
  qed
  have 4: "\<forall>c. par c \<noteq> None \<longrightarrow> reachable maze start c"
    using parent_key_reachable [OF PI assms(2)] by blast
  have 5: "par goal = None \<longrightarrow> (\<forall>c. reachable maze start c \<longrightarrow> par c \<noteq> None)"
  proof
    assume "par goal = None"
    with f found_goal_recorded have "bfs_exhausted maze start goal ls par" by blast
    then show "\<forall>c. reachable maze start c \<longrightarrow> par c \<noteq> None"
      using exhausted_covers [OF assms(2)] by blast
  qed
  have 6: "\<forall>node nbs q vis par q' vis' par'.
        dom par = vis \<and> discover node nbs (q, vis, par) = (q', vis', par') \<longrightarrow>
        dom par' = vis' \<and> (\<forall>c. par c \<noteq> None \<longrightarrow> par' c = par c)"
    using discover_keeps_entries by blast
  show ?thesis
    apply (rule exI [of _ ls], rule exI [of _ par])
    using r 1 2 3 4 5 6 by (intro conjI) assumption+
qed

lemma row_comp_length: "length (fst (row_comp rnd wall_prob k st)) = k"
  by (induction k arbitrary: st) (simp_all add: case_prod_beta Let_def)

lemma maze_comp_length: "length (fst (maze_comp rnd wall_prob n k st)) = k"
  by (induction k arbitrary: st) (simp_all add: case_prod_beta Let_def)

lemma maze_comp_rows:
  "row \<in> set (fst (maze_comp rnd wall_prob n k st)) \<Longrightarrow> length row = n"
  by (induction k arbitrary: st) (auto simp: case_prod_beta Let_def row_comp_length)

lemma generate_maze_grid:
  "is_grid (fst (generate_maze seed_fn rnd st n wall_prob seed)) \<and>
   length (fst (generate_maze seed_fn rnd st n wall_prob seed)) = nat n"
  by (auto simp: generate_maze_def is_grid_def Let_def maze_comp_length dest: maze_comp_rows)

text \<open>
  Claim C4, as stated, fails: the code validates nothing. With start on a wall cell (the
  \<open>1 \<times> 1\<close> grid whose only cell is a wall), \<open>_bfs_layers\<close> raises nothing and returns
  the layers \<open>[[(0, 0)]]\<close>.
\<close>

theorem bfs_accepts_start_on_wall:
  "\<not> passable [[False]] (0, 0) \<and>
   returned_layers (bfs_layers [[False]] (0, 0) (0, 0)) = Some [[(0, 0)]]"
  by code_simp

text \<open>
  Claim C4, amended. No input is rejected. For every \<open>n\<close> and every wall probability,
  also outside \<open>[0, 1]\<close>, \<open>_generate_maze\<close> returns a square grid with \<open>max n 0\<close> rows,
  the empty grid for \<open>n \<le> 0\<close>. On every grid, for every start and goal, also outside
  the grid or on a wall, \<open>_bfs_layers\<close> returns layers of which the first is \<open>[start]\<close>.
\<close>

theorem no_input_validation:
  "(n \<le> 0 \<longrightarrow> fst (generate_maze seed_fn rnd st n wall_prob seed) = []) \<and>
   is_grid (fst (generate_maze seed_fn rnd st n wall_prob seed)) \<and>
   length (fst (generate_maze seed_fn rnd st n wall_prob seed)) = nat n \<and>
   (is_grid maze \<longrightarrow>
      (\<exists>layers parent. bfs_layers maze start goal = Some (Inr (layers, parent)) \<and>
         layers \<noteq> [] \<and> hd layers = [start]))"
proof -
  have "n \<le> 0 \<longrightarrow> fst (generate_maze seed_fn rnd st n wall_prob seed) = []"
    by (simp add: generate_maze_def)
  moreover have "is_grid maze \<longrightarrow>
      (\<exists>layers parent. bfs_layers maze start goal = Some (Inr (layers, parent)) \<and>
         layers \<noteq> [] \<and> hd layers = [start])"
  proof
    assume "is_grid maze"
    from bfs_layers_inv [OF this, of start goal] obtain ls p where
      r: "bfs_layers maze start goal = Some (Inr (ls, p))"
      and f: "bfs_found maze start goal ls p \<or> bfs_exhausted maze start goal ls p"
      by blast
    from bfs_result_first [OF f] r
    show "\<exists>layers parent. bfs_layers maze start goal = Some (Inr (layers, parent)) \<and>
         layers \<noteq> [] \<and> hd layers = [start]" by simp
  qed
  ultimately show ?thesis using generate_maze_grid [of seed_fn rnd st n wall_prob seed] by simp
qed

text \<open>
  Claim C6. With a seed given, \<open>_generate_maze\<close> is a function of \<open>n\<close>, the wall
  probability and the seed: whatever the state of the random generator before the call,
  two calls with the same three arguments return the same grid (and leave the generator
  in the same state). With \<open>seed=None\<close> no seed is given and the grid depends on the
  state of the generator.
\<close>

theorem generate_maze_deterministic:
  "generate_maze seed_fn rnd st1 n wall_prob (Some sd)
     = generate_maze seed_fn rnd st2 n wall_prob (Some sd)"
  by (simp add: generate_maze_def)

lemma rw_updater_step:
  assumes g: "is_grid (sc_maze sc)" and rb: "randbelow_ok randbelow"
    and run: "\<not> random_running sc < 0.5"
    and due: "\<not> last_move_time sc + dt < step_interval sc"
  shows "\<exists>sc'. rw_updater randbelow dt sc = Inr sc' \<and>
     (if nbrs (sc_maze sc) (rw_pos sc) \<noteq> []
      then adjacent (rw_pos sc) (rw_pos sc') \<and> passable (sc_maze sc) (rw_pos sc')
      else rw_pos sc' = rw_pos sc)"
proof -
  let ?nbs = "nbrs (sc_maze sc) (rw_pos sc)"
  show ?thesis
  proof (cases "?nbs = []")
    case True
    with run due g show ?thesis
      by (simp add: rw_updater_def Let_def neighbors_grid)
  next
    case False
    obtain i st where i: "randbelow (rng sc) (length ?nbs) = (i, st)" by (cases "randbelow (rng sc) (length ?nbs)")
    with rb False have lt: "i < length ?nbs"
      unfolding randbelow_ok_def by (metis fst_conv length_greater_0_conv)
    then have c: "?nbs ! i \<in> set ?nbs" by (rule nth_mem)
    then have a: "adjacent (rw_pos sc) (?nbs ! i)" "passable (sc_maze sc) (?nbs ! i)"
      by (simp_all add: in_nbrs)
    from a(2) have ib: "in_bounds (sc_maze sc) (?nbs ! i)" by (simp add: passable_def)
    from lt i False have ch: "choice randbelow (rng sc) ?nbs = (Inr (?nbs ! i), st)"
      by (simp add: choice_def py_index_def)
    from run due g False ch ib a show ?thesis
      by (simp add: rw_updater_def Let_def neighbors_grid)
  qed
qed

text \<open>
  Claim C7. A step of the random walk is a call of the updater while the walker is
  running and the step interval has elapsed. On a grid, with an index drawn within the
  length of the list, the step moves the walker to a passable cell (hence in bounds)
  next to the current one whenever such a cell exists, and leaves the position as it is
  when there is none.
\<close>

theorem random_walk_step:
  assumes "is_grid (sc_maze sc)" and "randbelow_ok randbelow"
    and "\<not> random_running sc < 0.5"
    and "\<not> last_move_time sc + dt < step_interval sc"
  shows "\<exists>sc'. rw_updater randbelow dt sc = Inr sc' \<and>
     ((\<exists>d. adjacent (rw_pos sc) d \<and> passable (sc_maze sc) d) \<longrightarrow>
        adjacent (rw_pos sc) (rw_pos sc') \<and> passable (sc_maze sc) (rw_pos sc')) \<and>
     ((\<forall>d. adjacent (rw_pos sc) d \<longrightarrow> \<not> passable (sc_maze sc) d) \<longrightarrow>
        rw_pos sc' = rw_pos sc)"
proof -
  let ?nbs = "nbrs (sc_maze sc) (rw_pos sc)"
  have "?nbs \<noteq> [] \<longleftrightarrow> (\<exists>d. d \<in> set ?nbs)" by (cases ?nbs) auto
  then have ex: "?nbs \<noteq> [] \<longleftrightarrow> (\<exists>d. adjacent (rw_pos sc) d \<and> passable (sc_maze sc) d)"
    by (simp only: in_nbrs)
  from rw_updater_step [OF assms] obtain sc' where
    r: "rw_updater randbelow dt sc = Inr sc'"
    and c: "if ?nbs \<noteq> []
      then adjacent (rw_pos sc) (rw_pos sc') \<and> passable (sc_maze sc) (rw_pos sc')
      else rw_pos sc' = rw_pos sc"
    by blast
  show ?thesis
  proof (cases "?nbs = []")
    case True
    with c ex r show ?thesis by auto
  next
    case False
    with c ex r show ?thesis by auto
  qed
qed

lemma force_passable_cell:
  assumes "is_grid maze" and "in_bounds maze c"
  shows "\<exists>maze'. force_passable maze c = Inr maze' \<and> is_grid maze' \<and> passable maze' c \<and>
     (\<forall>d. d \<noteq> c \<longrightarrow> passable maze' d = passable maze d)"
proof -
  obtain x y where c: "c = (x, y)" by (cases c)
  from assms(2) c have b: "0 \<le> x" "x < int (length maze)" "0 \<le> y" "y < int (length maze)"
    by (simp_all add: in_bounds_def)
  then have ny: "nat y < length maze" by simp
  with assms(1) have lr: "length (maze ! nat y) = length maze"
    by (simp add: is_grid_def)
  let ?m = "maze[nat y := (maze ! nat y)[nat x := True]]"
  from b lr have f: "force_passable maze c = Inr ?m"
    by (simp add: force_passable_def py_index_def py_assign_def c)
  have g: "is_grid ?m"
    using assms(1) lr unfolding is_grid_def by (auto dest!: set_update_subset_insert [THEN subsetD])
  have p: "passable ?m c" using b lr ny by (simp add: passable_def in_bounds_def c)
  have o: "passable ?m d = passable maze d" if "d \<noteq> c" for d
  proof -
    obtain x' y' where d: "d = (x', y')" by (cases d)
    show ?thesis
    proof (cases "in_bounds maze d")
      case False
      then show ?thesis by (auto simp: passable_def in_bounds_def)
    next
      case True
      with d have b': "0 \<le> x'" "0 \<le> y'" "y' < int (length maze)" by (simp_all add: in_bounds_def)
      from that c d have "nat y' \<noteq> nat y \<or> nat x' \<noteq> nat x" using b b' by auto
      then show ?thesis using ny by (auto simp: passable_def in_bounds_def d nth_list_update)
    qed
  qed
  from f g p o show ?thesis by blast
qed

lemma force_passable_length:
  "force_passable maze c = Inr maze' \<Longrightarrow> length maze' = length maze"
  by (auto simp: force_passable_def py_assign_def split: sum.splits if_splits)

lemma in_bounds_length: "length maze' = length maze \<Longrightarrow> in_bounds maze' c = in_bounds maze c"
  by (simp add: in_bounds_def)

lemma construct_maze_result:
  assumes "0 < grid_size"
  shows "\<exists>sc'. construct_maze seed_fn rnd grid_size wall_prob seed sc = Inr sc' \<and>
     is_grid (sc_maze sc') \<and>
     sc_start sc' = (0, 0) \<and> sc_goal sc' = (grid_size - 1, grid_size - 1) \<and>
     passable (sc_maze sc') (sc_start sc') \<and> passable (sc_maze sc') (sc_goal sc') \<and>
     (\<forall>d. d \<noteq> sc_start sc' \<and> d \<noteq> sc_goal sc' \<longrightarrow>
        passable (sc_maze sc') d
          = passable (fst (generate_maze seed_fn rnd (seed_fn seed) grid_size wall_prob (Some seed))) d)"
proof -
  let ?gen = "generate_maze seed_fn rnd (seed_fn seed) grid_size wall_prob (Some seed)"
  let ?m = "fst ?gen"
  let ?s = "(0, 0) :: cell" and ?g = "(grid_size - 1, grid_size - 1)"
  from generate_maze_grid [of seed_fn rnd "seed_fn seed" grid_size wall_prob "Some seed"]
  have g0: "is_grid ?m" and l0: "length ?m = nat grid_size" by simp_all
  from l0 assms have bs: "in_bounds ?m ?s" and bg: "in_bounds ?m ?g"
    by (simp_all add: in_bounds_def)
  from force_passable_cell [OF g0 bs] obtain m1 where
    f1: "force_passable ?m ?s = Inr m1" and g1: "is_grid m1" and p1: "passable m1 ?s"
    and o1: "\<forall>d. d \<noteq> ?s \<longrightarrow> passable m1 d = passable ?m d"
    by blast
  from bg have bg1: "in_bounds m1 ?g"
    using in_bounds_length [OF force_passable_length [OF f1]] by simp
  from force_passable_cell [OF g1 bg1] obtain m2 where
    f2: "force_passable m1 ?g = Inr m2" and g2: "is_grid m2" and p2: "passable m2 ?g"
    and o2: "\<forall>d. d \<noteq> ?g \<longrightarrow> passable m2 d = passable m1 d"
    by blast
  let ?sc = "sc\<lparr>sc_maze := m2, sc_start := ?s, sc_goal := ?g, rng := snd ?gen\<rparr>"
  have c: "construct_maze seed_fn rnd grid_size wall_prob seed sc = Inr ?sc"
    using f1 f2 by (simp add: construct_maze_def Let_def case_prod_beta)
  have ps: "passable m2 ?s"
  proof (cases "?s = ?g")
    case True
    with p2 show ?thesis by simp
  next
    case False
    with o2 p1 show ?thesis by simp
  qed
  have o: "\<forall>d. d \<noteq> ?s \<and> d \<noteq> ?g \<longrightarrow> passable m2 d = passable ?m d"
    using o1 o2 by simp
  show ?thesis
    apply (rule exI [of _ ?sc])
    using c g2 ps p2 o by simp
qed

lemma construct_maze_empty:
  assumes "grid_size \<le> 0"
  shows "construct_maze seed_fn rnd grid_size wall_prob seed sc = Inl IndexError"
proof -
  from assms have "fst (generate_maze seed_fn rnd (seed_fn seed) grid_size wall_prob (Some seed)) = []"
    by (simp add: generate_maze_def)
  then show ?thesis
    by (simp add: construct_maze_def Let_def case_prod_beta force_passable_def py_index_def)
qed

text \<open>
  Claim C9. The search, the path reconstruction and the updater of the random walk leave
  the maze of the scene as it is: after each of them \<open>sc_maze\<close> is what it was before.
  (\<open>_neighbors\<close> is called by the search and by the updater and has no effect of its
  own.) The only writes to the maze after its generation are those of \<open>construct\<close>
  that force start and goal free: every other cell is passable after them exactly when
  the generated grid made it so.
\<close>

theorem grid_left_unchanged:
  "(\<forall>sc'. construct_bfs sc = Some (Inr sc') \<longrightarrow> sc_maze sc' = sc_maze sc) \<and>
   (\<forall>sc'. construct_path sc = Some sc' \<longrightarrow> sc_maze sc' = sc_maze sc) \<and>
   (\<forall>sc'. rw_updater randbelow dt sc = Inr sc' \<longrightarrow> sc_maze sc' = sc_maze sc) \<and>
   (\<forall>sc'. construct_maze seed_fn rnd grid_size wall_prob seed sc = Inr sc' \<longrightarrow>
      (\<forall>d. d \<noteq> sc_start sc' \<and> d \<noteq> sc_goal sc' \<longrightarrow>
         passable (sc_maze sc') d
           = passable (fst (generate_maze seed_fn rnd (seed_fn seed) grid_size wall_prob
               (Some seed))) d))"
proof (intro conjI allI impI)
  fix sc'
  assume "construct_bfs sc = Some (Inr sc')"
  then show "sc_maze sc' = sc_maze sc"
    by (auto simp: construct_bfs_def split: option.splits sum.splits prod.splits)
next
  fix sc'
  assume "construct_path sc = Some sc'"
  then show "sc_maze sc' = sc_maze sc"
    by (auto simp: construct_path_def)
next
  fix sc'
  assume "rw_updater randbelow dt sc = Inr sc'"
  then show "sc_maze sc' = sc_maze sc"
    by (auto simp: rw_updater_def Let_def split: if_splits sum.splits prod.splits)
next
  fix sc' d
  assume c: "construct_maze seed_fn rnd grid_size wall_prob seed sc = Inr sc'"
    and d: "d \<noteq> sc_start sc' \<and> d \<noteq> sc_goal sc'"
  have "0 < grid_size"
  proof (rule ccontr)
    assume "\<not> 0 < grid_size"
    then have "grid_size \<le> 0" by simp
    from construct_maze_empty [OF this, of seed_fn rnd wall_prob seed sc] c show False by simp
  qed
  from construct_maze_result [OF this, of seed_fn rnd wall_prob seed sc] obtain sc'' where
    r: "construct_maze seed_fn rnd grid_size wall_prob seed sc = Inr sc''"
    and o: "\<forall>d. d \<noteq> sc_start sc'' \<and> d \<noteq> sc_goal sc'' \<longrightarrow>
        passable (sc_maze sc'') d
          = passable (fst (generate_maze seed_fn rnd (seed_fn seed) grid_size wall_prob (Some seed))) d"
    by blast
  from r c have "sc'' = sc'" by simp
  with o d show "passable (sc_maze sc') d
      = passable (fst (generate_maze seed_fn rnd (seed_fn seed) grid_size wall_prob (Some seed))) d"
    by blast
qed

section \<open>Concrete runs\<close>

text \<open>
  The example of the specification: on the \<open>3 \<times> 3\<close> grid with no wall, from
  \<open>(0, 0)\<close> to \<open>(2, 2)\<close>, the goal is found in layer 4 and the path returned is
  \<open>(0,0), (1,0), (2,0), (2,1), (2,2)\<close>. A grid with a short row is not a grid: reading
  past the end of the row raises \<open>IndexError\<close>.
\<close>

lemma example_layers:
  "returned_layers
     (bfs_layers [[True, True, True], [True, True, True], [True, True, True]] (0, 0) (2, 2))
   = Some [[(0, 0)], [(1, 0), (0, 1)], [(2, 0), (1, 1), (0, 2)], [(2, 1), (1, 2)], [(2, 2)]]"
  by code_simp

lemma example_path:
  "(case bfs_layers [[True, True, True], [True, True, True], [True, True, True]] (0, 0) (2, 2) of
      Some (Inr (ls, p)) \<Rightarrow> reconstruct_path p (0, 0) (2, 2)
    | _ \<Rightarrow> None)
   = Some [(0, 0), (1, 0), (2, 0), (2, 1), (2, 2)]"
  by code_simp

lemma example_short_row:
  "map_option (map_sum id fst) (bfs_layers [[True, True], [True]] (0, 0) (1, 1))
   = Some (Inl IndexError)"
  by code_simp

lemma g2_grid: "is_grid [[True, True], [False, True]]"
  by (simp add: is_grid_def)

lemma g2_start: "passable [[True, True], [False, True]] (0, 0)"
  by (simp add: passable_def in_bounds_def)

lemma g2_goal: "passable [[True, True], [False, True]] (1, 1)"
  by (simp add: passable_def in_bounds_def)

lemma g2_reachable: "reachable [[True, True], [False, True]] (0, 0) (1, 1)"
proof -
  have "path_between [[True, True], [False, True]] (0, 0) (1, 1) [(0, 0), (1, 0), (1, 1)]"
    by (simp add: path_between_def passable_def in_bounds_def adjacent_def)
  then show ?thesis unfolding reachable_def ..
qed

lemma no_entry_unreachable:
  assumes "is_grid maze" and "passable maze start"
    and "parent_entry (bfs_layers maze start goal) goal = Some None"
  shows "\<not> reachable maze start goal"
proof -
  from bfs_layers_inv [OF assms(1), of start goal] obtain ls par where
    r: "bfs_layers maze start goal = Some (Inr (ls, par))"
    and f: "bfs_found maze start goal ls par \<or> bfs_exhausted maze start goal ls par"
    by blast
  from r assms(3) have n: "par goal = None" by (simp add: parent_entry_def)
  with f found_goal_recorded have "bfs_exhausted maze start goal ls par" by blast
  from exhausted_covers [OF assms(2) this] n show ?thesis by blast
qed

theorem goal_layer_is_distance_witness:
  "is_grid [[True, True], [False, True]] \<and>
   passable [[True, True], [False, True]] (0, 0) \<and>
   passable [[True, True], [False, True]] (1, 1) \<and>
   reachable [[True, True], [False, True]] (0, 0) (1, 1) \<and>
   returned_layers (bfs_layers [[True, True], [False, True]] (0, 0) (1, 1))
     = Some [[(0, 0)], [(1, 0)], [(1, 1)]] \<and>
   shortest_path_length [[True, True], [False, True]] (0, 0) (1, 1) 2"
proof -
  let ?G = "[[True, True], [False, True]]"
  have ls: "returned_layers (bfs_layers ?G (0, 0) (1, 1)) = Some [[(0, 0)], [(1, 0)], [(1, 1)]]"
    by code_simp
  from goal_layer_is_distance [OF g2_grid g2_start g2_goal g2_reachable]
  obtain layers parent d where
    r: "bfs_layers ?G (0, 0) (1, 1) = Some (Inr (layers, parent))"
    and d: "d < length layers" "(1, 1) \<in> set (layers ! d)"
    and u: "\<forall>i < length layers. (1, 1) \<in> set (layers ! i) \<longrightarrow> i = d"
    and sp: "shortest_path_length ?G (0, 0) (1, 1) d"
    by blast
  from r ls have "layers = [[(0, 0)], [(1, 0)], [(1, 1)]]" by (simp add: returned_layers_def)
  with u have "d = 2" by (elim allE [of _ 2]) simp
  with sp ls show ?thesis using g2_grid g2_start g2_goal g2_reachable by simp
qed

theorem search_stops_at_goal_witness:
  "is_grid [[True, True, True], [True, True, True], [True, True, True]] \<and>
   passable [[True, True, True], [True, True, True], [True, True, True]] (0, 0) \<and>
   passable [[True, True, True], [True, True, True], [True, True, True]] (1, 1) \<and>
   reachable [[True, True, True], [True, True, True], [True, True, True]] (0, 0) (1, 1) \<and>
   returned_layers
     (bfs_layers [[True, True, True], [True, True, True], [True, True, True]] (0, 0) (1, 1))
     = Some [[(0, 0)], [(1, 0), (0, 1)], [(2, 0), (1, 1)]] \<and>
   shortest_path_length [[True, True, True], [True, True, True], [True, True, True]]
     (0, 0) (1, 1) 2 \<and>
   takeWhile (\<lambda>c. c \<noteq> (1, 1))
     (spec_layer [[True, True, True], [True, True, True], [True, True, True]] (0, 0) 2)
     = [(2, 0)] \<and>
   parent_entry
     (bfs_layers [[True, True, True], [True, True, True], [True, True, True]] (0, 0) (1, 1))
     (1, 2) = Some None"
proof -
  let ?G = "[[True, True, True], [True, True, True], [True, True, True]]"
  have g: "is_grid ?G" by (simp add: is_grid_def)
  have ps: "passable ?G (0, 0)" by (simp add: passable_def in_bounds_def)
  have pg: "passable ?G (1, 1)" by (simp add: passable_def in_bounds_def)
  have "path_between ?G (0, 0) (1, 1) [(0, 0), (1, 0), (1, 1)]"
    by (simp add: path_between_def passable_def in_bounds_def adjacent_def)
  then have re: "reachable ?G (0, 0) (1, 1)" unfolding reachable_def ..
  have ls: "returned_layers (bfs_layers ?G (0, 0) (1, 1))
      = Some [[(0, 0)], [(1, 0), (0, 1)], [(2, 0), (1, 1)]]"
    by code_simp
  from search_stops_at_goal [OF g ps pg re] obtain layers parent d where
    c: "bfs_layers ?G (0, 0) (1, 1) = Some (Inr (layers, parent)) \<and>
     shortest_path_length ?G (0, 0) (1, 1) d \<and>
     length layers = Suc d \<and>
     (\<forall>i < d. layers ! i = spec_layer ?G (0, 0) i) \<and>
     layers ! d = takeWhile (\<lambda>c. c \<noteq> (1, 1)) (spec_layer ?G (0, 0) d) @ [(1, 1)] \<and>
     (\<forall>i c. c \<in> set (spec_layer ?G (0, 0) i) \<longleftrightarrow> shortest_path_length ?G (0, 0) c i) \<and>
     (\<forall>c. parent c \<noteq> None \<longleftrightarrow>
        c = (0, 0) \<or>
        (passable ?G c \<and>
         (\<exists>u \<in> set (concat (butlast layers) @ butlast (last layers)). adjacent u c))) \<and>
     layers \<noteq> [] \<and> last layers \<noteq> [] \<and> last (last layers) = (1, 1) \<and>
     (1, 1) \<notin> set (butlast (last layers)) \<and> (1, 1) \<notin> set (concat (butlast layers))"
    by (elim exE) (rule that)
  from c have r: "bfs_layers ?G (0, 0) (1, 1) = Some (Inr (layers, parent))"
    by (elim conjE)
  from c have sp: "shortest_path_length ?G (0, 0) (1, 1) d" by (elim conjE)
  from c have len: "length layers = Suc d" by (elim conjE)
  from c have cut: "layers ! d = takeWhile (\<lambda>c. c \<noteq> (1, 1)) (spec_layer ?G (0, 0) d) @ [(1, 1)]"
    by (elim conjE)
  from c have keys: "\<forall>c. parent c \<noteq> None \<longleftrightarrow>
        c = (0, 0) \<or>
        (passable ?G c \<and>
         (\<exists>u \<in> set (concat (butlast layers) @ butlast (last layers)). adjacent u c))"
    by (elim conjE)
  from r ls have L: "layers = [[(0, 0)], [(1, 0), (0, 1)], [(2, 0), (1, 1)]]"
    by (simp add: returned_layers_def)
  with len have d: "d = 2" by simp
  from cut L d have tw: "takeWhile (\<lambda>c. c \<noteq> (1, 1)) (spec_layer ?G (0, 0) 2) = [(2, 0)]"
    by simp
  from keys have "parent (1, 2) \<noteq> None \<longleftrightarrow>
        (1, 2) = ((0, 0) :: cell) \<or>
        (passable ?G (1, 2) \<and>
         (\<exists>u \<in> set (concat (butlast layers) @ butlast (last layers)). adjacent u (1, 2)))"
    by (rule spec)
  with L have "parent (1, 2) = None" by (simp add: adjacent_def)
  with r have pe: "parent_entry (bfs_layers ?G (0, 0) (1, 1)) (1, 2) = Some None"
    by (simp add: parent_entry_def)
  from g ps pg re ls sp d tw pe show ?thesis by simp
qed

theorem bfs_layers_terminates_witness:
  "is_grid [[True, False], [False, True]] \<and>
   \<not> reachable [[True, False], [False, True]] (0, 0) (1, 1) \<and>
   (\<exists>layers parent.
      bfs_layers [[True, False], [False, True]] (0, 0) (1, 1) = Some (Inr (layers, parent)) \<and>
      length (concat layers) \<le> Suc (card {c. passable [[True, False], [False, True]] c}))"
proof -
  let ?G = "[[True, False], [False, True]]"
  have g: "is_grid ?G" by (simp add: is_grid_def)
  have ps: "passable ?G (0, 0)" by (simp add: passable_def in_bounds_def)
  have pe: "parent_entry (bfs_layers ?G (0, 0) (1, 1)) (1, 1) = Some None" by code_simp
  from no_entry_unreachable [OF g ps pe]
  have "\<not> reachable ?G (0, 0) (1, 1)" .
  with bfs_layers_terminates [OF g, of "(0, 0)" "(1, 1)"] g show ?thesis by simp
qed

theorem reconstructed_path_is_legal_witness:
  "is_grid [[True, True], [False, True]] \<and>
   passable [[True, True], [False, True]] (0, 0) \<and>
   passable [[True, True], [False, True]] (1, 1) \<and>
   (\<exists>layers parent.
      bfs_layers [[True, True], [False, True]] (0, 0) (1, 1) = Some (Inr (layers, parent)) \<and>
      reconstruct_path parent (0, 0) (1, 1) = Some [(0, 0), (1, 0), (1, 1)] \<and>
      legal_path [[True, True], [False, True]] [(0, 0), (1, 0), (1, 1)])"
proof -
  let ?G = "[[True, True], [False, True]]"
  have e: "(case bfs_layers ?G (0, 0) (1, 1) of
      Some (Inr (ls, p)) \<Rightarrow> reconstruct_path p (0, 0) (1, 1) | _ \<Rightarrow> None)
     = Some [(0, 0), (1, 0), (1, 1)]"
    by code_simp
  from reconstructed_path_is_legal [OF g2_grid g2_start g2_goal]
  obtain layers parent where
    r: "bfs_layers ?G (0, 0) (1, 1) = Some (Inr (layers, parent))"
    and n: "parent (1, 1) \<noteq> None \<longrightarrow>
        (\<exists>p. reconstruct_path parent (0, 0) (1, 1) = Some p \<and> p \<noteq> [] \<and>
           hd p = (0, 0) \<and> last p = (1, 1) \<and> distinct p \<and> legal_path ?G p)"
    by blast
  from r e have p: "reconstruct_path parent (0, 0) (1, 1) = Some [(0, 0), (1, 0), (1, 1)]"
    by simp
  then have "parent (1, 1) \<noteq> None" by (auto simp: reconstruct_path_def split: if_splits)
  with n p have "legal_path ?G [(0, 0), (1, 0), (1, 1)]" by auto
  with r p show ?thesis using g2_grid g2_start g2_goal by blast
qed

theorem no_input_validation_witness:
  "(0 :: int) \<le> 0 \<and>
   fst (generate_maze (\<lambda>sd :: nat. sd) (\<lambda>st. (0, Suc st)) 7 0 (3 / 2) (Some 42)) = [] \<and>
   is_grid [[False]] \<and> \<not> in_bounds [[False]] (5, 5) \<and>
   (\<exists>layers parent. bfs_layers [[False]] (5, 5) (0, 0) = Some (Inr (layers, parent)) \<and>
      layers \<noteq> [] \<and> hd layers = [(5, 5)])"
  using no_input_validation [of 0 "\<lambda>sd :: nat. sd" "\<lambda>st. (0, Suc st)" 7 "3 / 2" "Some 42"
      "[[False]]" "(5, 5)" "(0, 0)"]
  by (simp add: is_grid_def in_bounds_def)

theorem parent_map_first_discovery_witness:
  "is_grid [[True, True], [False, True]] \<and>
   passable [[True, True], [False, True]] (0, 0) \<and>
   (\<exists>layers parent.
      bfs_layers [[True, True], [False, True]] (0, 0) (1, 1) = Some (Inr (layers, parent)) \<and>
      parent (0, 0) = Some None \<and>
      first_discoverer [[True, True], [False, True]] (concat layers) (1, 0) (1, 1))"
proof -
  let ?G = "[[True, True], [False, True]]"
  have e: "parent_entry (bfs_layers ?G (0, 0) (1, 1)) (1, 1) = Some (Some (Some (1, 0)))"
    by code_simp
  from parent_map_first_discovery [OF g2_grid g2_start, of "(1, 1)"]
  obtain layers where "\<exists>parent. bfs_layers ?G (0, 0) (1, 1) = Some (Inr (layers, parent)) \<and>
     parent (0, 0) = Some None \<and>
     (\<forall>c. parent c = Some None \<longrightarrow> c = (0, 0)) \<and>
     (\<forall>c p. parent c = Some (Some p) \<longrightarrow> first_discoverer ?G (concat layers) p c) \<and>
     (\<forall>c. parent c \<noteq> None \<longrightarrow> reachable ?G (0, 0) c) \<and>
     (parent (1, 1) = None \<longrightarrow> (\<forall>c. reachable ?G (0, 0) c \<longrightarrow> parent c \<noteq> None)) \<and>
     (\<forall>node nbs q vis par q' vis' par'.
        dom par = vis \<and> discover node nbs (q, vis, par) = (q', vis', par') \<longrightarrow>
        dom par' = vis' \<and> (\<forall>c. par c \<noteq> None \<longrightarrow> par' c = par c))" ..
  then obtain parent where c: "bfs_layers ?G (0, 0) (1, 1) = Some (Inr (layers, parent)) \<and>
     parent (0, 0) = Some None \<and>
     (\<forall>c. parent c = Some None \<longrightarrow> c = (0, 0)) \<and>
     (\<forall>c p. parent c = Some (Some p) \<longrightarrow> first_discoverer ?G (concat layers) p c) \<and>
     (\<forall>c. parent c \<noteq> None \<longrightarrow> reachable ?G (0, 0) c) \<and>
     (parent (1, 1) = None \<longrightarrow> (\<forall>c. reachable ?G (0, 0) c \<longrightarrow> parent c \<noteq> None)) \<and>
     (\<forall>node nbs q vis par q' vis' par'.
        dom par = vis \<and> discover node nbs (q, vis, par) = (q', vis', par') \<longrightarrow>
        dom par' = vis' \<and> (\<forall>c. par c \<noteq> None \<longrightarrow> par' c = par c))" ..
  from c have r: "bfs_layers ?G (0, 0) (1, 1) = Some (Inr (layers, parent))"
    by (elim conjE)
  from c have s: "parent (0, 0) = Some None"
    by (elim conjE)
  from c have f: "\<forall>c p. parent c = Some (Some p) \<longrightarrow> first_discoverer ?G (concat layers) p c"
    by (elim conjE)
  from r e have "parent (1, 1) = Some (Some (1, 0))" by (simp add: parent_entry_def)
  with f have "first_discoverer ?G (concat layers) (1, 0) (1, 1)" by blast
  with r s have "bfs_layers ?G (0, 0) (1, 1) = Some (Inr (layers, parent)) \<and>
      parent (0, 0) = Some None \<and> first_discoverer ?G (concat layers) (1, 0) (1, 1)"
    by simp
  then have "\<exists>layers parent. bfs_layers ?G (0, 0) (1, 1) = Some (Inr (layers, parent)) \<and>
      parent (0, 0) = Some None \<and> first_discoverer ?G (concat layers) (1, 0) (1, 1)"
    by (intro exI)
  with g2_grid g2_start show ?thesis by simp
qed

theorem random_walk_step_witness:
  "is_grid [[True, True], [False, True]] \<and>
   randbelow_ok (\<lambda>(st :: nat) n. (st mod n, Suc st)) \<and>
   (\<exists>sc'. rw_updater (\<lambda>(st :: nat) n. (st mod n, Suc st)) (1 / 4)
        \<lparr>sc_maze = [[True, True], [False, True]], sc_start = (0, 0), sc_goal = (1, 1),
         sc_layers = [], sc_parent = Map.empty, sc_path = [], random_running = 1,
         rw_pos = (0, 0), last_move_time = 0, step_interval = 1 / 4, rw_steps = 0,
         rng = 0\<rparr> = Inr sc' \<and>
      rw_pos sc' = (1, 0))"
proof -
  let ?rb = "\<lambda>(st :: nat) n. (st mod n, Suc st)"
  let ?sc = "\<lparr>sc_maze = [[True, True], [False, True]], sc_start = (0, 0), sc_goal = (1, 1),
         sc_layers = [], sc_parent = Map.empty, sc_path = [], random_running = 1,
         rw_pos = (0, 0), last_move_time = 0, step_interval = 1 / 4, rw_steps = 0,
         rng = (0 :: nat)\<rparr>"
  have g: "is_grid (sc_maze ?sc)" by (simp add: is_grid_def)
  have rb: "randbelow_ok ?rb" by (simp add: randbelow_ok_def)
  have run: "\<not> random_running ?sc < 0.5" by simp
  have due: "\<not> last_move_time ?sc + 1 / 4 < step_interval ?sc" by simp
  from random_walk_step [OF g rb run due] obtain sc' where
    r: "rw_updater ?rb (1 / 4) ?sc = Inr sc'"
    and m: "(\<exists>d. adjacent (rw_pos ?sc) d \<and> passable (sc_maze ?sc) d) \<longrightarrow>
        adjacent (rw_pos ?sc) (rw_pos sc') \<and> passable (sc_maze ?sc) (rw_pos sc')"
    by blast
  have "adjacent (rw_pos ?sc) (1, 0) \<and> passable (sc_maze ?sc) (1, 0)"
    by (simp add: adjacent_def passable_def in_bounds_def)
  with m have a: "adjacent (0, 0) (rw_pos sc')" "passable [[True, True], [False, True]] (rw_pos sc')"
    by auto
  obtain x y where xy: "rw_pos sc' = (x, y)" by (cases "rw_pos sc'")
  from a(1) xy have c: "(x, y) = (1, 0) \<or> (x, y) = (- 1, 0) \<or> (x, y) = (0, 1) \<or> (x, y) = (0, - 1)"
    by (simp add: adjacent_def)
  from a(2) xy c have "(x, y) = (1, 0)"
    by (auto simp: passable_def in_bounds_def)
  with r xy g rb show ?thesis by auto
qed

theorem grid_left_unchanged_witness:
  "\<exists>sc'. rw_updater (\<lambda>(st :: nat) n. (st mod n, Suc st)) (1 / 4)
        \<lparr>sc_maze = [[True, True], [False, True]], sc_start = (0, 0), sc_goal = (1, 1),
         sc_layers = [], sc_parent = Map.empty, sc_path = [], random_running = 1,
         rw_pos = (0, 0), last_move_time = 0, step_interval = 1 / 4, rw_steps = 0,
         rng = 0\<rparr> = Inr sc' \<and>
      sc_maze sc' = [[True, True], [False, True]]"
proof -
  let ?rb = "\<lambda>(st :: nat) n. (st mod n, Suc st)"
  let ?sc = "\<lparr>sc_maze = [[True, True], [False, True]], sc_start = (0, 0), sc_goal = (1, 1),
         sc_layers = [], sc_parent = Map.empty, sc_path = [], random_running = 1,
         rw_pos = (0, 0), last_move_time = 0, step_interval = 1 / 4, rw_steps = 0,
         rng = (0 :: nat)\<rparr>"
  have g: "is_grid (sc_maze ?sc)" by (simp add: is_grid_def)
  have rb: "randbelow_ok ?rb" by (simp add: randbelow_ok_def)
  have run: "\<not> random_running ?sc < 0.5" by simp
  have due: "\<not> last_move_time ?sc + 1 / 4 < step_interval ?sc" by simp
  from rw_updater_step [OF g rb run due] obtain sc' where
    r: "rw_updater ?rb (1 / 4) ?sc = Inr sc'" by blast
  from grid_left_unchanged [of ?sc ?rb "1 / 4" "\<lambda>sd :: nat. sd" "\<lambda>st. (0, Suc st)" 2 0 42]
  have "\<forall>sc'. rw_updater ?rb (1 / 4) ?sc = Inr sc' \<longrightarrow> sc_maze sc' = sc_maze ?sc"
    by (elim conjE)
  with r have "sc_maze sc' = sc_maze ?sc" by blast
  with r show ?thesis by auto
qed

end
